theory Spec2Isabelle
  imports Complex_Main "HOL-Library.Word" "HOL-Library.Multiset" "HOL-Library.Option_ord"
    "HOL-Library.Log_Nat"
begin

section \<open>Grid detection: data model\<close>

text \<open>
  The JavaScript sources compute with IEEE doubles and store signals in
  \<open>Float32Array\<close>s.  The embedding reads every JavaScript number as a real number.  The
  two non-numbers that the code can produce are written out where they arise
  (\<open>-Infinity\<close> as \<open>None\<close> in running maxima and scores, \<open>NaN\<close> as \<open>None\<close> in the result
  of the remainder operator).  A typed array is a \<open>real list\<close>.  Rounding is written out
  in the offset estimators and in the size of the scaled canvas, whose results depend on
  it; the other stages are read in exact arithmetic.
\<close>

type_synonym signal = "real list"

section \<open>Rounding of doubles and of \<open>Float32Array\<close> entries\<close>

text \<open>
  IEEE 754 rounding to the nearest number with a significand of \<open>p\<close> bits, ties to the
  even significand: \<open>p = 53\<close> for the result of an arithmetic operation on doubles,
  \<open>p = 24\<close> for a value stored into a \<open>Float32Array\<close>.  The exponent range is taken as
  unbounded: overflow to \<open>Infinity\<close> and gradual underflow are not modelled.  On float32
  entries the products, sums and quotients of \<open>estimateGridOffset\<close> stay inside the
  normal range of doubles, and on a \<open>Float32Array\<close> whose maximum is 1 or 0 the drop
  handler's copy stores every entry unchanged.
\<close>

definition roundHalfEven :: "real \<Rightarrow> int" where
  "roundHalfEven t =
     (let r = \<lfloor>t\<rfloor>; d = t - of_int r
      in if d < 1 / 2 then r else if d > 1 / 2 then r + 1
         else if even r then r else r + 1)"

text \<open>The exponent \<open>e\<close> of a positive number \<open>x\<close>: \<open>2 ^ e \<le> x < 2 ^ (e + 1)\<close>.\<close>

definition binaryExponent :: "real \<Rightarrow> int" where
  "binaryExponent x =
     (if 1 \<le> x then bitlen \<lfloor>x\<rfloor> - 1 else - bitlen (\<lceil>1 / x\<rceil> - 1))"

definition pow2 :: "int \<Rightarrow> real" where
  "pow2 k = (if 0 \<le> k then 2 ^ nat k else 1 / 2 ^ nat (- k))"

definition roundToPrecision :: "nat \<Rightarrow> real \<Rightarrow> real" where
  "roundToPrecision p x =
     (if x = 0 then 0
      else let ulp = pow2 (binaryExponent \<bar>x\<bar> - int p + 1)
           in of_int (roundHalfEven (x / ulp)) * ulp)"

definition fl64 :: "real \<Rightarrow> real" where
  "fl64 = roundToPrecision 53"

definition fl32 :: "real \<Rightarrow> real" where
  "fl32 = roundToPrecision 24"

text \<open>A \<open>Float32Array\<close>: every entry is a float32 value.\<close>

definition isFloat32Array :: "signal \<Rightarrow> bool" where
  "isFloat32Array signal \<longleftrightarrow> (\<forall>v\<in>set signal. fl32 v = v)"

text \<open>\<open>AutocorrelationEntry\<close> of signal-processing-utils.js: \<open>{lag, val}\<close>.\<close>

record AutocorrelationEntry =
  lag :: real
  val :: real

text \<open>
  \<open>PeriodCandidate\<close> of signal-processing-utils.js: \<open>{value, score}\<close>.  The field
  \<open>value\<close> is spelled \<open>pvalue\<close> here.
\<close>

record PeriodCandidate =
  pvalue :: real
  score :: real

section \<open>Axis combiner\<close>

text \<open>
  \<open>combinePeriodCandidates\<close> (signal-processing-utils.js).  A candidate is an object or
  \<open>null\<close>; the result is a number or \<open>null\<close>.
\<close>

definition combinePeriodCandidates ::
  "PeriodCandidate option \<Rightarrow> PeriodCandidate option \<Rightarrow> real option" where
  "combinePeriodCandidates periodX periodY =
     (case periodX of
        Some px \<Rightarrow>
          (case periodY of
             Some py \<Rightarrow>
               if \<bar>pvalue px - pvalue py\<bar> \<le> 2 then Some ((pvalue px + pvalue py) / 2)
               else Some (if score px \<ge> score py then pvalue px else pvalue py)
           | None \<Rightarrow> Some (pvalue px))
      | None \<Rightarrow>
          (case periodY of
             Some py \<Rightarrow> Some (pvalue py)
           | None \<Rightarrow> None))"

text \<open>
  The same combination as it is written inline in the drop handler's
  \<open>detectGridFromImage\<close> (the local variable \<open>period\<close>, initially \<open>null\<close>).
\<close>

definition dh_period ::
  "PeriodCandidate option \<Rightarrow> PeriodCandidate option \<Rightarrow> real option" where
  "dh_period periodCandidateX periodCandidateY =
     (if periodCandidateX \<noteq> None \<and> periodCandidateY \<noteq> None then
        (if \<bar>pvalue (the periodCandidateX) - pvalue (the periodCandidateY)\<bar> \<le> 2
         then Some ((pvalue (the periodCandidateX) + pvalue (the periodCandidateY)) / 2)
         else Some (if score (the periodCandidateX) \<ge> score (the periodCandidateY)
                    then pvalue (the periodCandidateX) else pvalue (the periodCandidateY)))
      else if periodCandidateX \<noteq> None then Some (pvalue (the periodCandidateX))
      else if periodCandidateY \<noteq> None then Some (pvalue (the periodCandidateY))
      else None)"

section \<open>Period picker\<close>

text \<open>
  \<open>findBestPeriodFromAutocorrelation\<close> (signal-processing-utils.js).  The peak test of
  the loop body, at index \<open>i\<close>: strictly above the left neighbour, not below the right one.
\<close>

definition isPeak :: "AutocorrelationEntry list \<Rightarrow> nat \<Rightarrow> bool" where
  "isPeak autocorrelation i \<longleftrightarrow>
     val (autocorrelation ! i) > val (autocorrelation ! (i - 1)) \<and>
     val (autocorrelation ! i) \<ge> val (autocorrelation ! (i + 1))"

text \<open>
  The loop \<open>for (let i = 1; i < autocorrelation.length - 1; i++)\<close>, started at \<open>i\<close>; it
  pushes the peaks in index order.  The bound is written \<open>i + 1 < length\<close> since the
  JavaScript \<open>length - 1\<close> is \<open>-1\<close> for the empty array.
\<close>

function collectPeaks :: "AutocorrelationEntry list \<Rightarrow> nat \<Rightarrow> AutocorrelationEntry list" where
  "collectPeaks autocorrelation i =
     (if i + 1 < length autocorrelation then
        (if isPeak autocorrelation i
         then autocorrelation ! i # collectPeaks autocorrelation (i + 1)
         else collectPeaks autocorrelation (i + 1))
      else [])"
  by pat_completeness auto
termination
  by (relation "measure (\<lambda>(autocorrelation, i). length autocorrelation - i)") auto

declare collectPeaks.simps [simp del]

text \<open>
  \<open>Array.prototype.sort\<close> is stable, and so is \<open>sort_key\<close> (insertion sort): the
  comparator \<open>(a, b) => b.val - a.val\<close> sorts by descending \<open>val\<close>, \<open>(a, b) => a.lag - b.lag\<close>
  by ascending \<open>lag\<close>.  The argument is an array in every caller; \<open>null\<close> is not modelled.
\<close>

definition findBestPeriodFromAutocorrelation ::
  "AutocorrelationEntry list \<Rightarrow> PeriodCandidate option" where
  "findBestPeriodFromAutocorrelation autocorrelation =
     (if autocorrelation = [] then None
      else
        let peaks = collectPeaks autocorrelation 1 in
        if peaks = [] then None
        else
          let sortedPeaks = sort_key (\<lambda>e. - val e) peaks;
              topPeaks = sort_key lag (take 5 sortedPeaks);
              bestPeak = hd topPeaks
          in Some \<lparr>pvalue = lag bestPeak, score = val bestPeak\<rparr>)"

text \<open>
  \<open>pickPeriodFromAutocorr\<close> (drop-handler.js): the same steps, with the peaks sorted
  before the emptiness test.
\<close>

definition pickPeriodFromAutocorr ::
  "AutocorrelationEntry list \<Rightarrow> PeriodCandidate option" where
  "pickPeriodFromAutocorr autocorrelation =
     (if autocorrelation = [] then None
      else
        let peaks = sort_key (\<lambda>e. - val e) (collectPeaks autocorrelation 1) in
        if peaks = [] then None
        else
          let topPeaks = sort_key lag (take 5 peaks);
              best = hd topPeaks
          in Some \<lparr>pvalue = lag best, score = val best\<rparr>)"

section \<open>Signal conditioning\<close>

text \<open>
  \<open>windowSize | 0\<close>: the callers pass integers, and \<open>| 0\<close> wraps an integer to a signed
  32-bit value.
\<close>

definition toInt32 :: "int \<Rightarrow> int" where
  "toInt32 n = sint (word_of_int n :: 32 word)"

text \<open>
  The sliding loop of \<open>applyHighPassFilter\<close> (signal-processing-utils.js), from index
  \<open>i\<close> with the current \<open>runningSum\<close>; it yields \<open>output[i], output[i+1], \<dots>\<close> before
  the attenuation pass.  \<open>leftBoundary\<close> may be negative, so it is an \<open>int\<close>.  The two
  conjuncts of the source's \<open>rightBoundary < length && i + halfWindow < length\<close> are the
  same test.  \<open>spanSize\<close> is at least 1 for \<open>i < length\<close>, so its \<open>|| 1\<close> never applies.
\<close>

function highPassLoop :: "signal \<Rightarrow> nat \<Rightarrow> nat \<Rightarrow> real \<Rightarrow> signal" where
  "highPassLoop signal halfWindow i runningSum =
     (if i < length signal then
        (let leftBoundary = int i - int halfWindow - 1;
             rightBoundary = i + halfWindow;
             runningSum1 = (if rightBoundary < length signal \<and> i + halfWindow < length signal
                            then runningSum + signal ! rightBoundary else runningSum);
             runningSum2 = (if leftBoundary \<ge> 0
                            then runningSum1 - signal ! nat leftBoundary else runningSum1);
             spanStart = max 0 (int i - int halfWindow);
             spanEnd = min (int (length signal) - 1) (int i + int halfWindow);
             spanSize = (if spanEnd - spanStart + 1 = 0 then 1 else spanEnd - spanStart + 1);
             localAverage = runningSum2 / real_of_int spanSize
         in (signal ! i - localAverage) # highPassLoop signal halfWindow (i + 1) runningSum2)
      else [])"
  by pat_completeness auto
termination
  by (relation "measure (\<lambda>(signal, halfWindow, i, runningSum). length signal - i)") auto

declare highPassLoop.simps [simp del]

definition applyHighPassFilter :: "signal \<Rightarrow> int \<Rightarrow> signal" where
  "applyHighPassFilter signal windowSize =
     (let effectiveWindow = max 3 (toInt32 windowSize);
          halfWindow = nat (effectiveWindow div 2);
          initialWindowSize = min (length signal) (nat effectiveWindow);
          runningSum = foldl (+) 0 (take initialWindowSize signal);
          output = highPassLoop signal halfWindow 0 runningSum
      in map (\<lambda>v. if v < 0 then v * 0.2 else v) output)"

text \<open>
  \<open>highPass1D\<close> (drop-handler.js) is the same code under other variable names; its loop
  body is that of \<open>highPassLoop\<close>.
\<close>

definition highPass1D :: "signal \<Rightarrow> int \<Rightarrow> signal" where
  "highPass1D signal windowSize =
     (let window = max 3 (toInt32 windowSize);
          halfWindow = nat (window div 2);
          accumulator = foldl (+) 0 (take (min (length signal) (nat window)) signal);
          output = highPassLoop signal halfWindow 0 accumulator
      in map (\<lambda>v. if v < 0 then v * 0.2 else v) output)"

text \<open>
  The running maximum and minimum of \<open>normalizeSignal\<close>, started at \<open>-Infinity\<close> and
  \<open>Infinity\<close> (both \<open>None\<close>): every number exceeds \<open>-Infinity\<close> and is below \<open>Infinity\<close>.
\<close>

fun maxLoop :: "signal \<Rightarrow> real option \<Rightarrow> real option" where
  "maxLoop [] maxValue = maxValue"
| "maxLoop (v # vs) maxValue =
     maxLoop vs (case maxValue of None \<Rightarrow> Some v
                 | Some m \<Rightarrow> if v > m then Some v else Some m)"

fun minLoop :: "signal \<Rightarrow> real option \<Rightarrow> real option" where
  "minLoop [] minValue = minValue"
| "minLoop (v # vs) minValue =
     minLoop vs (case minValue of None \<Rightarrow> Some v
                 | Some m \<Rightarrow> if v < m then Some v else Some m)"

text \<open>
  \<open>normalizeSignal\<close>.  The extrema are infinite only for the empty signal, whose
  normalisation is the empty array.
\<close>

definition normalizeSignal :: "signal \<Rightarrow> signal" where
  "normalizeSignal signal =
     (case (maxLoop signal None, minLoop signal None) of
        (Some maxValue, Some minValue) \<Rightarrow>
          (let range = (if maxValue - minValue = 0 then 1 else maxValue - minValue)
           in map (\<lambda>v. (v - minValue) / range) signal)
      | _ \<Rightarrow> [])"

section \<open>Autocorrelation engine\<close>

text \<open>
  \<open>computeAutocorrelation\<close> (signal-processing-utils.js) and \<open>autocorr1D\<close>
  (drop-handler.js).  The lags are natural numbers in every caller.  For the empty
  signal the JavaScript mean is \<open>NaN\<close>, and no sample is ever compared with it; HOL's
  \<open>0 / 0 = 0\<close> is as unused.  \<open>denominator || 1\<close> replaces a zero denominator by 1.
\<close>

definition computeAutocorrelation :: "signal \<Rightarrow> nat \<Rightarrow> nat \<Rightarrow> AutocorrelationEntry list" where
  "computeAutocorrelation signal minLag maxLag =
     (let signalLength = length signal;
          sumv = foldl (+) 0 signal;
          mean = sumv / real signalLength;
          denominator0 = foldl (\<lambda>d v. d + (v - mean) * (v - mean)) 0 signal;
          denominator = (if denominator0 = 0 then 1 else denominator0)
      in map (\<lambda>lag.
                let numerator =
                      foldl (\<lambda>acc i. acc + (signal ! i - mean) * (signal ! (i + lag) - mean))
                        0 [0..<signalLength - lag]
                in \<lparr>lag = real lag, val = numerator / denominator\<rparr>)
             [minLag..<maxLag + 1])"

definition autocorr1D :: "signal \<Rightarrow> nat \<Rightarrow> nat \<Rightarrow> AutocorrelationEntry list" where
  "autocorr1D signal minimumLag maximumLag =
     (let mean = foldl (\<lambda>a b. a + b) 0 signal / real (length signal);
          denominator0 = foldl (\<lambda>d v. d + (v - mean) * (v - mean)) 0 signal;
          denominator = (if denominator0 = 0 then 1 else denominator0)
      in map (\<lambda>lag.
                let numerator =
                      foldl (\<lambda>acc i. acc + (signal ! i - mean) * (signal ! (i + lag) - mean))
                        0 [0..<length signal - lag]
                in \<lparr>lag = real lag, val = numerator / denominator\<rparr>)
             [minimumLag..<maximumLag + 1])"

section \<open>Offset estimator\<close>

text \<open>
  The comparison \<open>score > bestScore\<close> of \<open>estimateGridOffset\<close>, where either side may be
  \<open>-Infinity\<close> (\<open>None\<close>).
\<close>

definition scoreGreater :: "real option \<Rightarrow> real option \<Rightarrow> bool" where
  "scoreGreater a b =
     (case a of None \<Rightarrow> False
      | Some x \<Rightarrow> (case b of None \<Rightarrow> True | Some y \<Rightarrow> x > y))"

text \<open>
  The inner loop \<open>for (let i = offset; i < length; i += period)\<close>, carrying \<open>sum\<close> and
  \<open>count\<close> (here \<open>sumv\<close>, \<open>countv\<close>).  The product and the sum are doubles.  The loop is
  reached with \<open>period \<ge> 2\<close> only; the test \<open>0 < period\<close> is what makes the recursion
  terminate.
\<close>

function sampleLoop :: "signal \<Rightarrow> real \<Rightarrow> nat \<Rightarrow> nat \<Rightarrow> real \<times> nat \<Rightarrow> real \<times> nat" where
  "sampleLoop signal normalizer period i (sumv, countv) =
     (if i < length signal \<and> 0 < period
      then sampleLoop signal normalizer period (i + period)
             (fl64 (sumv + fl64 (signal ! i * normalizer)), countv + 1)
      else (sumv, countv))"
  by pat_completeness auto
termination
  by (relation "measure (\<lambda>(signal, normalizer, period, i, acc). length signal - i)") auto

declare sampleLoop.simps [simp del]

text \<open>The score of one offset: \<open>count ? sum / count : -Infinity\<close>, a double.\<close>

definition offsetScore :: "signal \<Rightarrow> real \<Rightarrow> nat \<Rightarrow> nat \<Rightarrow> real option" where
  "offsetScore signal normalizer period offset =
     (case sampleLoop signal normalizer period offset (0, 0) of
        (sumv, countv) \<Rightarrow> if countv \<noteq> 0 then Some (fl64 (sumv / real countv)) else None)"

text \<open>
  The outer loop \<open>for (let offset = 0; offset < period; offset++)\<close>, carrying
  \<open>bestOffset\<close> and \<open>bestScore\<close>.
\<close>

function offsetLoop :: "signal \<Rightarrow> real \<Rightarrow> nat \<Rightarrow> nat \<Rightarrow> nat \<times> real option \<Rightarrow> nat" where
  "offsetLoop signal normalizer period offset (bestOffset, bestScore) =
     (if offset < period then
        (let score = offsetScore signal normalizer period offset
         in if scoreGreater score bestScore
            then offsetLoop signal normalizer period (offset + 1) (offset, score)
            else offsetLoop signal normalizer period (offset + 1) (bestOffset, bestScore))
      else bestOffset)"
  by pat_completeness auto
termination
  by (relation "measure (\<lambda>(signal, normalizer, period, offset, best). period - offset)") auto

declare offsetLoop.simps [simp del]

text \<open>
  \<open>estimateGridOffset\<close>.  The period is an integer (the callers pass \<open>Math.round\<close> of
  the detected period); \<open>!period\<close> holds for 0.  \<open>maxValue ? 1 / maxValue : 1\<close> is a
  double; for the empty signal \<open>maxValue\<close> is \<open>-Infinity\<close>, the normalizer is \<open>-0\<close>, and
  nothing is multiplied by it.
\<close>

definition estimateGridOffset :: "signal \<Rightarrow> int \<Rightarrow> nat" where
  "estimateGridOffset signal period =
     (if period = 0 \<or> period < 2 then 0
      else
        let maxValue = maxLoop signal None;
            normalizer = (case maxValue of None \<Rightarrow> 0
                          | Some m \<Rightarrow> if m \<noteq> 0 then fl64 (1 / m) else 1)
        in offsetLoop signal normalizer (nat period) 0 (0, None))"

text \<open>
  \<open>estimateOffsetFromProjection\<close> (drop-handler.js) first maps the signal to
  \<open>normalized\<close> and then sums \<open>normalized[i]\<close>.  \<open>array.map\<close> of a \<open>Float32Array\<close> is a
  \<open>Float32Array\<close>: each double product \<open>v * inv\<close> is stored as a float32.
\<close>

function dh_sampleLoop :: "signal \<Rightarrow> nat \<Rightarrow> nat \<Rightarrow> real \<times> nat \<Rightarrow> real \<times> nat" where
  "dh_sampleLoop normalized period i (sumv, countv) =
     (if i < length normalized \<and> 0 < period
      then dh_sampleLoop normalized period (i + period)
             (fl64 (sumv + normalized ! i), countv + 1)
      else (sumv, countv))"
  by pat_completeness auto
termination
  by (relation "measure (\<lambda>(normalized, period, i, acc). length normalized - i)") auto

declare dh_sampleLoop.simps [simp del]

function dh_shiftLoop :: "signal \<Rightarrow> nat \<Rightarrow> nat \<Rightarrow> nat \<times> real option \<Rightarrow> nat" where
  "dh_shiftLoop normalized period shift (bestShift, bestScore) =
     (if shift < period then
        (let score = (case dh_sampleLoop normalized period shift (0, 0) of
                        (sumv, countv) \<Rightarrow>
                          if countv \<noteq> 0 then Some (fl64 (sumv / real countv)) else None)
         in if scoreGreater score bestScore
            then dh_shiftLoop normalized period (shift + 1) (shift, score)
            else dh_shiftLoop normalized period (shift + 1) (bestShift, bestScore))
      else bestShift)"
  by pat_completeness auto
termination
  by (relation "measure (\<lambda>(normalized, period, shift, best). period - shift)") auto

declare dh_shiftLoop.simps [simp del]

definition estimateOffsetFromProjection :: "signal \<Rightarrow> int \<Rightarrow> nat" where
  "estimateOffsetFromProjection signal period =
     (if period = 0 \<or> period < 2 then 0
      else
        let inv = (case maxLoop signal None of None \<Rightarrow> 0
                   | Some m \<Rightarrow> if m \<noteq> 0 then fl64 (1 / m) else 1);
            normalized = map (\<lambda>v. fl32 (fl64 (v * inv))) signal
        in dh_shiftLoop normalized (nat period) 0 (0, None))"

section \<open>Edge detection and projection\<close>

text \<open>\<open>clampValue\<close> (signal-processing-utils.js), on the integer pixel coordinates.\<close>

definition clampValue :: "int \<Rightarrow> int \<Rightarrow> int \<Rightarrow> int" where
  "clampValue v minimum maximum =
     (if v < minimum then minimum else if v > maximum then maximum else v)"

definition sobelX :: "real list" where
  "sobelX = [-1, 0, 1, -2, 0, 2, -1, 0, 1]"

definition sobelY :: "real list" where
  "sobelY = [-1, -2, -1, 0, 0, 0, 1, 2, 1]"

text \<open>
  The kernel loops of \<open>computeSobelMagnitude\<close> at pixel \<open>(x, y)\<close>: the nine clamped samples
  in the order of \<open>kernelIndex\<close>, weighted by the two kernels; \<open>Math.hypot\<close> of the
  gradients.
\<close>

definition sobelAt :: "signal \<Rightarrow> nat \<Rightarrow> nat \<Rightarrow> nat \<Rightarrow> nat \<Rightarrow> real" where
  "sobelAt grayscale width height x y =
     (let samples =
            concat (map (\<lambda>kernelY.
              let sampleY = clampValue (int y + kernelY) 0 (int height - 1) in
              map (\<lambda>kernelX.
                let sampleX = clampValue (int x + kernelX) 0 (int width - 1)
                in grayscale ! nat (sampleY * int width + sampleX))
                [-1, 0, 1])
              [-1, 0, 1]);
          gradientX = sum_list (map2 (*) samples sobelX);
          gradientY = sum_list (map2 (*) samples sobelY)
      in sqrt (gradientX\<^sup>2 + gradientY\<^sup>2))"

text \<open>
  \<open>computeSobelMagnitude\<close> (grid-detection-service.js) and \<open>sobelMagnitude\<close>
  (drop-handler.js): rows outermost, \<open>output[y * width + x]\<close>.
\<close>

definition computeSobelMagnitude :: "signal \<Rightarrow> nat \<Rightarrow> nat \<Rightarrow> signal" where
  "computeSobelMagnitude grayscale width height =
     concat (map (\<lambda>y. map (\<lambda>x. sobelAt grayscale width height x y) [0..<width]) [0..<height])"

definition sobelMagnitude :: "signal \<Rightarrow> nat \<Rightarrow> nat \<Rightarrow> signal" where
  "sobelMagnitude grayscale width height =
     concat (map (\<lambda>y. map (\<lambda>x. sobelAt grayscale width height x y) [0..<width]) [0..<height])"

text \<open>
  \<open>computeEdgeProjections\<close>: \<open>projectionX[x]\<close> accumulates column \<open>x\<close> over the rows,
  \<open>projectionY[y]\<close> is the sum of row \<open>y\<close>.
\<close>

definition computeEdgeProjections :: "signal \<Rightarrow> nat \<Rightarrow> nat \<Rightarrow> signal \<times> signal" where
  "computeEdgeProjections edgeMagnitude width height =
     (map (\<lambda>x. foldl (\<lambda>acc y. acc + edgeMagnitude ! (y * width + x)) 0 [0..<height]) [0..<width],
      map (\<lambda>y. foldl (\<lambda>rowSum x. rowSum + edgeMagnitude ! (y * width + x)) 0 [0..<width]) [0..<height])"

text \<open>
  \<open>extractGrayscaleData\<close>: one luminance per pixel, \<open>pixelCount = width * height\<close>.  The
  pixel data are the bytes that \<open>getImageData\<close> returns for the scaled canvas, four per
  pixel.
\<close>

definition luminance :: "nat list \<Rightarrow> nat \<Rightarrow> real" where
  "luminance rgbaPixels rgbaIndex =
     0.299 * real (rgbaPixels ! rgbaIndex) + 0.587 * real (rgbaPixels ! (rgbaIndex + 1))
       + 0.114 * real (rgbaPixels ! (rgbaIndex + 2))"

definition extractGrayscaleData :: "nat list \<Rightarrow> nat \<Rightarrow> nat \<Rightarrow> signal" where
  "extractGrayscaleData rgbaPixels width height =
     map (\<lambda>pixelIndex. luminance rgbaPixels (4 * pixelIndex)) [0..<width * height]"

text \<open>
  The drop handler's grayscale loop runs while \<open>index < pixelData.length\<close> and writes
  into a zero-filled \<open>Float32Array(width * height)\<close>: entry \<open>pixelIndex\<close> is written when
  the loop reaches \<open>index = 4 * pixelIndex\<close>, and stays 0 otherwise.
\<close>

definition dh_grayscale :: "nat list \<Rightarrow> nat \<Rightarrow> nat \<Rightarrow> signal" where
  "dh_grayscale pixelData width height =
     map (\<lambda>pixelIndex. if 4 * pixelIndex < length pixelData
                         then luminance pixelData (4 * pixelIndex) else 0)
       [0..<width * height]"

section \<open>Pipeline orchestrator\<close>

text \<open>\<open>Math.round\<close>: the nearest integer, halves rounded up.\<close>

definition mathRound :: "real \<Rightarrow> int" where
  "mathRound v = \<lfloor>v + 1 / 2\<rfloor>"

text \<open>
  The JavaScript remainder \<open>a % b\<close>: \<open>NaN\<close> (\<open>None\<close>) for a zero divisor, otherwise
  \<open>a\<close> minus \<open>b\<close> times the quotient truncated towards zero.
\<close>

definition jsRemainder :: "real \<Rightarrow> real \<Rightarrow> real option" where
  "jsRemainder a b =
     (if b = 0 then None
      else Some (a - b * of_int (if a / b \<ge> 0 then \<lfloor>a / b\<rfloor> else \<lceil>a / b\<rceil>)))"

text \<open>
  \<open>GridDetectionResult\<close>.  The offsets of the manual-point path come from \<open>%\<close> and may
  be \<open>NaN\<close>, which is \<open>None\<close>.
\<close>

record GridDetectionResult =
  gridSize :: real
  xOffset :: "real option"
  yOffset :: "real option"

record ManualPoint =
  point_x :: real
  point_y :: real

datatype DetectionError = InsufficientPeriodicSignal

definition MAX_PROCESSING_DIMENSION :: nat where
  "MAX_PROCESSING_DIMENSION = 1600"

definition MIN_VALID_PERIOD :: real where
  "MIN_VALID_PERIOD = 6"

text \<open>
  \<open>createScaledCanvas\<close>: the scale factor and the canvas size.  For an image of size 0
  the quotient is \<open>Infinity\<close> and the minimum is 1.  The quotient and the product are
  doubles; \<open>Math.round\<close> of a double is exact.
\<close>

definition scaleFactorOf :: "nat \<Rightarrow> nat \<Rightarrow> real" where
  "scaleFactorOf imageWidth imageHeight =
     (if max imageWidth imageHeight = 0 then 1
      else min 1 (fl64 (real MAX_PROCESSING_DIMENSION / real (max imageWidth imageHeight))))"

definition scaledDimension :: "nat \<Rightarrow> real \<Rightarrow> nat" where
  "scaledDimension imageDimension scaleFactor =
     nat (max 1 (mathRound (fl64 (real imageDimension * scaleFactor))))"

text \<open>\<open>processProjection\<close>.\<close>

definition processProjection :: "signal \<Rightarrow> nat \<Rightarrow> signal" where
  "processProjection projection dimension =
     (let windowSize = max 5 (int (dimension div 50));
          highPassed = applyHighPassFilter projection windowSize
      in normalizeSignal highPassed)"

text \<open>\<open>detectPeriodFromProjections\<close>.\<close>

definition detectPeriodFromProjections :: "signal \<Rightarrow> signal \<Rightarrow> nat \<Rightarrow> nat \<Rightarrow> real option" where
  "detectPeriodFromProjections signalX signalY width height =
     (let minLagX = max 8 (width div 200);
          minLagY = max 8 (height div 200);
          maxLagX = min (width div 2) 1024;
          maxLagY = min (height div 2) 1024;
          autocorrX = computeAutocorrelation signalX minLagX maxLagX;
          autocorrY = computeAutocorrelation signalY minLagY maxLagY;
          periodX = findBestPeriodFromAutocorrelation autocorrX;
          periodY = findBestPeriodFromAutocorrelation autocorrY
      in combinePeriodCandidates periodX periodY)"

text \<open>\<open>buildDetectionResult\<close>.\<close>

definition buildDetectionResult :: "real \<Rightarrow> signal \<Rightarrow> signal \<Rightarrow> real \<Rightarrow> GridDetectionResult" where
  "buildDetectionResult period signalX signalY scaleFactor =
     (let offsetX = estimateGridOffset signalX (mathRound period);
          offsetY = estimateGridOffset signalY (mathRound period);
          inverseScale = 1 / scaleFactor
      in \<lparr>gridSize = period * inverseScale,
          xOffset = Some (real offsetX * inverseScale),
          yOffset = Some (real offsetY * inverseScale)\<rparr>)"

text \<open>
  \<open>detectFromManualPoints\<close>; it is called with at least two points, so the minima and
  maxima are those of non-empty lists.
\<close>

definition detectFromManualPoints :: "ManualPoint list \<Rightarrow> GridDetectionResult" where
  "detectFromManualPoints points =
     (let xCoords = map point_x points;
          yCoords = map point_y points;
          minX = Min (set xCoords); maxX = Max (set xCoords);
          minY = Min (set yCoords); maxY = Max (set yCoords);
          avgSpacingX = (maxX - minX) / (real (length points) - 1);
          avgSpacingY = (maxY - minY) / (real (length points) - 1);
          gridSize = real_of_int (mathRound ((avgSpacingX + avgSpacingY) / 2))
      in \<lparr>gridSize = gridSize,
          xOffset = jsRemainder minX gridSize,
          yOffset = jsRemainder minY gridSize\<rparr>)"

text \<open>
  \<open>GridDetectionService.detectGridFromImage\<close>, from the decoded image on: its width and
  height, the bytes read back from the scaled canvas, and the optional manual points.
  The thrown error is the \<open>Inl\<close> result.  \<open>detectedPeriod && Number.isFinite(\<dots>)\<close>: a
  non-null, non-zero number.
\<close>

definition detectGridFromImage ::
  "nat \<Rightarrow> nat \<Rightarrow> nat list \<Rightarrow> ManualPoint list option \<Rightarrow> DetectionError + GridDetectionResult" where
  "detectGridFromImage imageWidth imageHeight rgbaPixels manualPoints =
     (let scaleFactor = scaleFactorOf imageWidth imageHeight;
          width = scaledDimension imageWidth scaleFactor;
          height = scaledDimension imageHeight scaleFactor;
          grayscaleData = extractGrayscaleData rgbaPixels width height;
          edgeMagnitude = computeSobelMagnitude grayscaleData width height;
          (projectionX, projectionY) = computeEdgeProjections edgeMagnitude width height;
          filteredX = processProjection projectionX width;
          filteredY = processProjection projectionY height;
          detectedPeriod = detectPeriodFromProjections filteredX filteredY width height
      in if detectedPeriod \<noteq> None \<and> the detectedPeriod \<noteq> 0
            \<and> the detectedPeriod \<ge> MIN_VALID_PERIOD
         then Inr (buildDetectionResult (the detectedPeriod) filteredX filteredY scaleFactor)
         else if manualPoints \<noteq> None \<and> length (the manualPoints) \<ge> 2
         then Inr (detectFromManualPoints (the manualPoints))
         else Inl InsufficientPeriodicSignal)"

text \<open>
  \<open>detectGridFromImage\<close> of the drop handler (drop-handler.js), with everything but its
  helpers written inline as in the source.
\<close>

definition dh_normalize :: "signal \<Rightarrow> signal" where
  "dh_normalize signal =
     (case (maxLoop signal None, minLoop signal None) of
        (Some maxValue, Some minValue) \<Rightarrow>
          (let range = (if maxValue - minValue = 0 then 1 else maxValue - minValue)
           in map (\<lambda>v. (v - minValue) / range) signal)
      | _ \<Rightarrow> [])"

definition dh_detectGridFromImage ::
  "nat \<Rightarrow> nat \<Rightarrow> nat list \<Rightarrow> ManualPoint list option \<Rightarrow> DetectionError + GridDetectionResult" where
  "dh_detectGridFromImage imageWidth imageHeight pixelData manualPoints =
     (let maximumDimension = (1600 :: nat);
          scale = (if max imageWidth imageHeight = 0 then 1
                   else min 1 (fl64 (real maximumDimension / real (max imageWidth imageHeight))));
          width = nat (max 1 (mathRound (fl64 (real imageWidth * scale))));
          height = nat (max 1 (mathRound (fl64 (real imageHeight * scale))));
          grayscale = dh_grayscale pixelData width height;
          magnitude = sobelMagnitude grayscale width height;
          projectionX =
            map (\<lambda>x. foldl (\<lambda>acc y. acc + magnitude ! (y * width + x)) 0 [0..<height]) [0..<width];
          projectionY =
            map (\<lambda>y. foldl (\<lambda>rowSum x. rowSum + magnitude ! (y * width + x)) 0 [0..<width])
              [0..<height];
          highPassX = highPass1D projectionX (max 5 (int (width div 50)));
          highPassY = highPass1D projectionY (max 5 (int (height div 50)));
          normalizedX = dh_normalize highPassX;
          normalizedY = dh_normalize highPassY;
          minimumLagX = max 8 (width div 200);
          minimumLagY = max 8 (height div 200);
          maximumLagX = min (width div 2) 1024;
          maximumLagY = min (height div 2) 1024;
          autocorrelationX = autocorr1D normalizedX minimumLagX maximumLagX;
          autocorrelationY = autocorr1D normalizedY minimumLagY maximumLagY;
          periodCandidateX = pickPeriodFromAutocorr autocorrelationX;
          periodCandidateY = pickPeriodFromAutocorr autocorrelationY;
          period = dh_period periodCandidateX periodCandidateY
      in if period \<noteq> None \<and> the period \<noteq> 0 \<and> the period \<ge> 6
         then
           (let offsetX = estimateOffsetFromProjection normalizedX (mathRound (the period));
                offsetY = estimateOffsetFromProjection normalizedY (mathRound (the period));
                inverseScale = 1 / scale
            in Inr \<lparr>gridSize = the period * inverseScale,
                     xOffset = Some (real offsetX * inverseScale),
                     yOffset = Some (real offsetY * inverseScale)\<rparr>)
         else if manualPoints \<noteq> None \<and> length (the manualPoints) \<ge> 2
         then
           (let xCoordinates = map point_x (the manualPoints);
                yCoordinates = map point_y (the manualPoints);
                minX = Min (set xCoordinates); maxX = Max (set xCoordinates);
                minY = Min (set yCoordinates); maxY = Max (set yCoordinates);
                widthSpan = maxX - minX; heightSpan = maxY - minY;
                averageSpacingX = widthSpan / (real (length (the manualPoints)) - 1);
                averageSpacingY = heightSpan / (real (length (the manualPoints)) - 1);
                tileSize = real_of_int (mathRound ((averageSpacingX + averageSpacingY) / 2))
            in Inr \<lparr>gridSize = tileSize,
                     xOffset = jsRemainder minX tileSize,
                     yOffset = jsRemainder minY tileSize\<rparr>)
         else Inl InsufficientPeriodicSignal)"

section \<open>The centred moving average, as specified\<close>

text \<open>
  This definition follows the specification's words, not the code: at every index the
  sample minus the arithmetic mean over the centred window
  \<open>[max(0, i - h), min(length - 1, i + h)]\<close>, with \<open>W = max(3, w)\<close> and \<open>h = W div 2\<close>,
  and a negative difference multiplied by 0.2.  It is what \<open>applyHighPassFilter\<close> is
  compared with.
\<close>

definition centredWindow :: "signal \<Rightarrow> nat \<Rightarrow> nat \<Rightarrow> real list" where
  "centredWindow signal h i =
     map ((!) signal) [i - h..<min (length signal) (i + h + 1)]"

definition specHighPass :: "signal \<Rightarrow> int \<Rightarrow> signal" where
  "specHighPass signal w =
     (let h = nat (max 3 w div 2)
      in map (\<lambda>i. let window = centredWindow signal h i;
                      residual = signal ! i - sum_list window / real (length window)
                  in if residual < 0 then residual * 0.2 else residual)
           [0..<length signal])"

section \<open>Notation for the offset estimator's property\<close>

text \<open>
  Two abbreviations for stating what \<open>estimateGridOffset\<close> maximises.  The normalising
  factor is the reciprocal of the signal's maximum as a double (1 when the maximum is 0).
  The computed mean of an offset is the average as the loop computes it: the samples at
  the positions \<open>off, off + p, off + 2 p, \<dots>\<close> below the signal's length, each multiplied
  by \<open>nz\<close>, summed from left to right and divided by their number, every operation
  rounded to a double.
\<close>

abbreviation maxNormalizer :: "signal \<Rightarrow> real" where
  "maxNormalizer s \<equiv>
     (if s = [] then 0 else if Max (set s) \<noteq> 0 then fl64 (1 / Max (set s)) else 1)"

abbreviation computedMean :: "signal \<Rightarrow> real \<Rightarrow> nat \<Rightarrow> nat \<Rightarrow> real" where
  "computedMean s nz p off \<equiv>
     fl64 (foldl (\<lambda>acc k. fl64 (acc + fl64 (s ! (off + k * p) * nz))) 0
             [0..<card {k. off + k * p < length s}]
           / real (card {k. off + k * p < length s}))"

section \<open>Properties of the axis combiner\<close>

lemma dh_period_eq_combine:
  "dh_period px py = combinePeriodCandidates px py"
  by (cases px; cases py) (simp_all add: dh_period_def combinePeriodCandidates_def)

text \<open>
  Claim C5.  With both candidates present and values at most 2 apart the combiner returns
  their average; with values more than 2 apart it returns the value of the candidate whose
  score is strictly higher; with one candidate present it returns that candidate's value;
  with none it returns null.  Candidates (50, 0.9) and (52, 0.7) give 51, and (50, 0.9)
  with (80, 0.95) give 80.
\<close>

theorem combinePeriodCandidates_cases:
  "(\<bar>pvalue x - pvalue y\<bar> \<le> 2 \<longrightarrow>
      combinePeriodCandidates (Some x) (Some y) = Some ((pvalue x + pvalue y) / 2))
   \<and> (\<bar>pvalue x - pvalue y\<bar> > 2 \<and> score x > score y \<longrightarrow>
      combinePeriodCandidates (Some x) (Some y) = Some (pvalue x))
   \<and> (\<bar>pvalue x - pvalue y\<bar> > 2 \<and> score y > score x \<longrightarrow>
      combinePeriodCandidates (Some x) (Some y) = Some (pvalue y))
   \<and> combinePeriodCandidates (Some x) None = Some (pvalue x)
   \<and> combinePeriodCandidates None (Some y) = Some (pvalue y)
   \<and> combinePeriodCandidates None None = None
   \<and> combinePeriodCandidates (Some \<lparr>pvalue = 50, score = 9/10\<rparr>)
        (Some \<lparr>pvalue = 52, score = 7/10\<rparr>) = Some 51
   \<and> combinePeriodCandidates (Some \<lparr>pvalue = 50, score = 9/10\<rparr>)
        (Some \<lparr>pvalue = 80, score = 95/100\<rparr>) = Some 80"
  by (simp add: combinePeriodCandidates_def)

theorem combinePeriodCandidates_cases_witness:
  "combinePeriodCandidates (Some \<lparr>pvalue = 40, score = 1/2\<rparr>)
     (Some \<lparr>pvalue = 41, score = 1/4\<rparr>) = Some (81/2)
   \<and> combinePeriodCandidates (Some \<lparr>pvalue = 40, score = 1/2\<rparr>)
     (Some \<lparr>pvalue = 90, score = 1/4\<rparr>) = Some 40
   \<and> combinePeriodCandidates (Some \<lparr>pvalue = 90, score = 1/4\<rparr>)
     (Some \<lparr>pvalue = 40, score = 1/2\<rparr>) = Some 40"
  using combinePeriodCandidates_cases
          [of "\<lparr>pvalue = 40, score = 1/2\<rparr>" "\<lparr>pvalue = 41, score = 1/4\<rparr>"]
        combinePeriodCandidates_cases
          [of "\<lparr>pvalue = 40, score = 1/2\<rparr>" "\<lparr>pvalue = 90, score = 1/4\<rparr>"]
        combinePeriodCandidates_cases
          [of "\<lparr>pvalue = 90, score = 1/4\<rparr>" "\<lparr>pvalue = 40, score = 1/2\<rparr>"]
  by simp

text \<open>
  Claim C10.  With both candidates present, values more than 2 apart and exactly equal
  scores, the X-axis candidate's value is returned, by the service's combiner and by the
  drop handler's inline combination alike.
\<close>

theorem combinePeriodCandidates_tie_prefers_x:
  "\<bar>pvalue x - pvalue y\<bar> > 2 \<Longrightarrow> score x = score y \<Longrightarrow>
     combinePeriodCandidates (Some x) (Some y) = Some (pvalue x)
     \<and> dh_period (Some x) (Some y) = Some (pvalue x)"
  by (simp add: combinePeriodCandidates_def dh_period_def)

theorem combinePeriodCandidates_tie_prefers_x_witness:
  "combinePeriodCandidates (Some \<lparr>pvalue = 50, score = 4/5\<rparr>)
     (Some \<lparr>pvalue = 80, score = 4/5\<rparr>) = Some 50
   \<and> dh_period (Some \<lparr>pvalue = 50, score = 4/5\<rparr>)
     (Some \<lparr>pvalue = 80, score = 4/5\<rparr>) = Some 50"
  using combinePeriodCandidates_tie_prefers_x
          [of "\<lparr>pvalue = 50, score = 4/5\<rparr>" "\<lparr>pvalue = 80, score = 4/5\<rparr>"]
  by simp

section \<open>Properties of the period picker\<close>

lemma collectPeaks_filter:
  "collectPeaks ac i = map ((!) ac) (filter (isPeak ac) [i..<length ac - 1])"
proof (induction ac i rule: collectPeaks.induct)
  case (1 ac i)
  show ?case
  proof (cases "i + 1 < length ac")
    case True
    then have "[i..<length ac - 1] = i # [i + 1..<length ac - 1]"
      by (simp add: upt_conv_Cons)
    with True 1 show ?thesis
      by (subst collectPeaks.simps) simp
  next
    case False
    then show ?thesis by (subst collectPeaks.simps) simp
  qed
qed

lemma collectPeaks_mem:
  "e \<in> set (collectPeaks ac 1) \<longleftrightarrow>
     (\<exists>i. 1 \<le> i \<and> i + 1 < length ac \<and> e = ac ! i \<and>
          val (ac ! (i - 1)) < val (ac ! i) \<and> val (ac ! (i + 1)) \<le> val (ac ! i))"
  by (auto simp: collectPeaks_filter isPeak_def)

lemma sort_key_eq_Nil: "sort_key f xs = [] \<longleftrightarrow> xs = []"
  by (metis length_sort length_0_conv)

lemma pick_eq_find:
  "pickPeriodFromAutocorr ac = findBestPeriodFromAutocorrelation ac"
  by (simp add: pickPeriodFromAutocorr_def findBestPeriodFromAutocorrelation_def Let_def
      sort_key_eq_Nil)

lemma hd_sort_key_least:
  assumes "xs \<noteq> []"
  shows "hd (sort_key f xs) \<in> set xs \<and> (\<forall>a\<in>set xs. f (hd (sort_key f xs)) \<le> f a)"
proof -
  define zs where "zs = sort_key f xs"
  have set_zs: "set zs = set xs" and srt: "sorted (map f zs)"
    by (simp_all add: zs_def)
  have "zs \<noteq> []" using assms set_zs by auto
  then obtain y ys where ys: "zs = y # ys" by (cases zs) auto
  from srt ys have "\<forall>a\<in>set zs. f y \<le> f a" by auto
  moreover have "y \<in> set zs" using ys by simp
  ultimately have "y \<in> set xs \<and> (\<forall>a\<in>set xs. f y \<le> f a)"
    unfolding set_zs by blast
  then have "hd zs \<in> set xs \<and> (\<forall>a\<in>set xs. f (hd zs) \<le> f a)"
    by (simp add: ys)
  then show ?thesis by (simp add: zs_def)
qed

lemma sorted_take_drop_le:
  assumes "sorted (map f xs)" "a \<in> set (take n xs)" "b \<in> set (drop n xs)"
  shows "f a \<le> f b"
proof -
  have "sorted (map f (take n xs) @ map f (drop n xs))"
    using assms(1) by (simp only: map_append[symmetric] append_take_drop_id)
  then show ?thesis using assms(2,3) by (auto simp: sorted_append)
qed

lemma top_five_largest:
  fixes peaks :: "AutocorrelationEntry list"
  defines "tops \<equiv> take 5 (sort_key (\<lambda>e. - val e) peaks)"
  shows "mset tops \<subseteq># mset peaks \<and> length tops = min 5 (length peaks) \<and>
         (\<forall>a\<in>set tops. \<forall>b\<in>#(mset peaks - mset tops). val b \<le> val a)"
proof -
  let ?s = "sort_key (\<lambda>e. - val e) peaks"
  have "mset ?s = mset (take 5 ?s) + mset (drop 5 ?s)"
    by (simp only: mset_append[symmetric] append_take_drop_id)
  then have split: "mset peaks = mset tops + mset (drop 5 ?s)"
    unfolding tops_def by simp
  then have rest: "mset peaks - mset tops = mset (drop 5 ?s)" by simp
  have "\<forall>a\<in>set tops. \<forall>b\<in>set (drop 5 ?s). val b \<le> val a"
  proof (intro ballI)
    fix a b assume "a \<in> set tops" "b \<in> set (drop 5 ?s)"
    then have "- val a \<le> - val b"
      unfolding tops_def using sorted_take_drop_le[of "\<lambda>e. - val e" ?s a 5 b] by simp
    then show "val b \<le> val a" by simp
  qed
  moreover have "length tops = min 5 (length peaks)" by (simp add: tops_def min.commute)
  moreover have "mset tops \<subseteq># mset peaks" using split by simp
  ultimately show ?thesis using rest by simp
qed

lemma hd_sort_key_first:
  assumes "\<forall>a\<in>set xs. f x \<le> f a"
  shows "hd (sort_key f (x # xs)) = x"
proof -
  have "\<forall>a\<in>set (sort_key f xs). f x \<le> f a" using assms by simp
  then have "insort_key f x (sort_key f xs) = x # sort_key f xs"
    by (cases "sort_key f xs") auto
  then show ?thesis by simp
qed


lemma collectPeaks_Nil: "collectPeaks [] i = []"
  by (subst collectPeaks.simps) simp

lemma findBest_Some:
  assumes "collectPeaks ac 1 \<noteq> []"
  shows "findBestPeriodFromAutocorrelation ac =
    Some \<lparr>pvalue = lag (hd (sort_key lag (take 5 (sort_key (\<lambda>e. - val e) (collectPeaks ac 1))))),
          score = val (hd (sort_key lag (take 5 (sort_key (\<lambda>e. - val e) (collectPeaks ac 1)))))\<rparr>"
proof -
  have "ac \<noteq> []" using assms by (auto simp: collectPeaks_Nil)
  then show ?thesis using assms by (simp add: findBestPeriodFromAutocorrelation_def Let_def)
qed

lemma findBest_None: "findBestPeriodFromAutocorrelation ac = None \<longleftrightarrow> collectPeaks ac 1 = []"
  by (auto simp: findBestPeriodFromAutocorrelation_def Let_def collectPeaks_Nil)

lemma findBest_top:
  assumes "findBestPeriodFromAutocorrelation ac = Some c"
  shows "\<exists>tops best. mset tops \<subseteq># mset (collectPeaks ac 1) \<and>
           length tops = min 5 (length (collectPeaks ac 1)) \<and>
           (\<forall>a\<in>set tops. \<forall>b\<in>#(mset (collectPeaks ac 1) - mset tops). val b \<le> val a) \<and>
           best \<in> set tops \<and> (\<forall>a\<in>set tops. lag best \<le> lag a) \<and>
           pvalue c = lag best \<and> score c = val best"
proof -
  let ?peaks = "collectPeaks ac 1"
  let ?tops = "take 5 (sort_key (\<lambda>e. - val e) ?peaks)"
  let ?best = "hd (sort_key lag ?tops)"
  have ne: "?peaks \<noteq> []" using assms findBest_None[of ac] by auto
  then have tne: "?tops \<noteq> []" by (simp add: sort_key_eq_Nil)
  have best: "?best \<in> set ?tops" "\<forall>a\<in>set ?tops. lag ?best \<le> lag a"
    using hd_sort_key_least[OF tne, of lag] by blast+
  have c: "pvalue c = lag ?best" "score c = val ?best"
    using findBest_Some[OF ne] assms by auto
  from top_five_largest[of ?peaks]
  have t: "mset ?tops \<subseteq># mset ?peaks" "length ?tops = min 5 (length ?peaks)"
    "\<forall>a\<in>set ?tops. \<forall>b\<in>#(mset ?peaks - mset ?tops). val b \<le> val a"
    by blast+
  show ?thesis
  proof (intro exI conjI)
    show "mset ?tops \<subseteq># mset ?peaks" by (rule t(1))
    show "length ?tops = min 5 (length ?peaks)" by (rule t(2))
    show "\<forall>a\<in>set ?tops. \<forall>b\<in>#(mset ?peaks - mset ?tops). val b \<le> val a" by (rule t(3))
    show "?best \<in> set ?tops" by (rule best(1))
    show "\<forall>a\<in>set ?tops. lag ?best \<le> lag a" by (rule best(2))
    show "pvalue c = lag ?best" by (rule c(1))
    show "score c = val ?best" by (rule c(2))
  qed
qed


lemma collectPeaks_lags_ascending:
  assumes "sorted_wrt (<) (map lag ac)"
  shows "sorted_wrt (<) (map lag (collectPeaks ac i))"
proof -
  have nth: "\<And>a b. a < b \<Longrightarrow> b < length ac \<Longrightarrow> lag (ac ! a) < lag (ac ! b)"
    using assms by (simp add: sorted_wrt_iff_nth_less)
  have "sorted_wrt (<) [i..<length ac - 1]" by simp
  then have "sorted_wrt (\<lambda>a b. lag (ac ! a) < lag (ac ! b)) [i..<length ac - 1]"
    by (rule sorted_wrt_mono_rel[rotated]) (auto intro: nth)
  then have "sorted_wrt (\<lambda>a b. lag (ac ! a) < lag (ac ! b)) (filter (isPeak ac) [i..<length ac - 1])"
    by (rule sorted_wrt_filter)
  then show ?thesis
    by (simp add: collectPeaks_filter sorted_wrt_map)
qed

lemma sorted_wrt_less_unique:
  fixes f :: "'a \<Rightarrow> real"
  assumes "sorted_wrt (<) (map f xs)" "a \<in> set xs" "b \<in> set xs" "f a = f b"
  shows "a = b"
proof -
  obtain i j where ij: "i < length xs" "j < length xs" "a = xs ! i" "b = xs ! j"
    using assms(2,3) by (auto simp: in_set_conv_nth)
  have "\<not> i < j" "\<not> j < i"
    using assms(1,4) ij sorted_wrt_iff_nth_less[of "(<)" "map f xs"] by fastforce+
  then show ?thesis using ij by simp
qed

lemma findBest_first_strongest:
  assumes ord: "sorted_wrt (<) (map lag ac)"
    and e: "e \<in> set (collectPeaks ac 1)"
    and str: "\<forall>p\<in>set (collectPeaks ac 1). val p \<le> val e \<and> lag e \<le> lag p"
  shows "findBestPeriodFromAutocorrelation ac = Some \<lparr>pvalue = lag e, score = val e\<rparr>"
proof -
  define peaks where "peaks = collectPeaks ac 1"
  define tops where "tops = take 5 (sort_key (\<lambda>e. - val e) peaks)"
  define best where "best = hd (sort_key lag tops)"
  have asc: "sorted_wrt (<) (map lag peaks)"
    unfolding peaks_def by (rule collectPeaks_lags_ascending[OF ord])
  have e': "e \<in> set peaks" and str': "\<forall>p\<in>set peaks. val p \<le> val e \<and> lag e \<le> lag p"
    using e str by (simp_all add: peaks_def)
  then obtain p ps where pps: "peaks = p # ps" by (cases peaks) auto
  have "lag p \<le> lag e" using asc e' pps by auto
  moreover have "lag e \<le> lag p" using str' pps by simp
  ultimately have "p = e"
    using sorted_wrt_less_unique[OF asc, of p e] e' pps by simp
  then have "hd (sort_key (\<lambda>e. - val e) peaks) = e"
    using hd_sort_key_first[of ps "\<lambda>e. - val e" e] str' pps by simp
  moreover have "sort_key (\<lambda>e. - val e) peaks \<noteq> []"
    using pps by (simp add: sort_key_eq_Nil)
  ultimately have etop: "e \<in> set tops"
    unfolding tops_def by (cases "sort_key (\<lambda>e. - val e) peaks") auto
  then have tne: "tops \<noteq> []" by auto
  have "set tops \<subseteq> set peaks"
    unfolding tops_def using set_take_subset[of 5 "sort_key (\<lambda>e. - val e) peaks"] by simp
  moreover have b: "best \<in> set tops" "\<forall>a\<in>set tops. lag best \<le> lag a"
    unfolding best_def using hd_sort_key_least[OF tne, of lag] by blast+
  ultimately have "best \<in> set peaks" "lag best \<le> lag e" "lag e \<le> lag best"
    using etop str' by auto
  then have "best = e"
    using sorted_wrt_less_unique[OF asc, of best e] e' by simp
  moreover have "findBestPeriodFromAutocorrelation ac = Some \<lparr>pvalue = lag best, score = val best\<rparr>"
    using findBest_Some[of ac] pps by (simp add: peaks_def tops_def best_def)
  ultimately show ?thesis by simp
qed

text \<open>
  Claim C4, as amended.  The peaks are exactly the interior entries strictly above the
  left neighbour and not below the right one; the picker returns null exactly when there
  is no peak; otherwise it returns lag and correlation of a smallest-lag entry among
  \<open>min 5 n\<close> peaks that are at least as strong as every other peak; the drop handler's
  picker returns the same.  For a curve in ascending lag order with two equal-valued
  peaks at lags 40 and 80, no stronger peak and no peak at a lag below 40, it returns
  lag 40.
\<close>

theorem findBestPeriodFromAutocorrelation_spec:
  "(\<forall>e. e \<in> set (collectPeaks ac 1) \<longleftrightarrow>
      (\<exists>i. 1 \<le> i \<and> i + 1 < length ac \<and> e = ac ! i \<and>
           val (ac ! (i - 1)) < val (ac ! i) \<and> val (ac ! (i + 1)) \<le> val (ac ! i)))
   \<and> (findBestPeriodFromAutocorrelation ac = None \<longleftrightarrow> collectPeaks ac 1 = [])
   \<and> (\<forall>c. findBestPeriodFromAutocorrelation ac = Some c \<longrightarrow>
        (\<exists>tops best.
           mset tops \<subseteq># mset (collectPeaks ac 1) \<and>
           length tops = min 5 (length (collectPeaks ac 1)) \<and>
           (\<forall>a\<in>set tops. \<forall>b\<in>#(mset (collectPeaks ac 1) - mset tops). val b \<le> val a) \<and>
           best \<in> set tops \<and> (\<forall>a\<in>set tops. lag best \<le> lag a) \<and>
           pvalue c = lag best \<and> score c = val best))
   \<and> pickPeriodFromAutocorr ac = findBestPeriodFromAutocorrelation ac
   \<and> (sorted_wrt (<) (map lag ac) \<and>
       \<lparr>lag = 40, val = v\<rparr> \<in> set (collectPeaks ac 1) \<and>
       \<lparr>lag = 80, val = v\<rparr> \<in> set (collectPeaks ac 1) \<and>
       (\<forall>p\<in>set (collectPeaks ac 1). val p \<le> v \<and> 40 \<le> lag p) \<longrightarrow>
       findBestPeriodFromAutocorrelation ac = Some \<lparr>pvalue = 40, score = v\<rparr>)"
proof (intro conjI allI impI)
  fix e
  show "e \<in> set (collectPeaks ac 1) \<longleftrightarrow>
      (\<exists>i. 1 \<le> i \<and> i + 1 < length ac \<and> e = ac ! i \<and>
           val (ac ! (i - 1)) < val (ac ! i) \<and> val (ac ! (i + 1)) \<le> val (ac ! i))"
    by (rule collectPeaks_mem)
next
  show "findBestPeriodFromAutocorrelation ac = None \<longleftrightarrow> collectPeaks ac 1 = []"
    by (rule findBest_None)
next
  fix c assume "findBestPeriodFromAutocorrelation ac = Some c"
  then show "\<exists>tops best.
           mset tops \<subseteq># mset (collectPeaks ac 1) \<and>
           length tops = min 5 (length (collectPeaks ac 1)) \<and>
           (\<forall>a\<in>set tops. \<forall>b\<in>#(mset (collectPeaks ac 1) - mset tops). val b \<le> val a) \<and>
           best \<in> set tops \<and> (\<forall>a\<in>set tops. lag best \<le> lag a) \<and>
           pvalue c = lag best \<and> score c = val best"
    by (rule findBest_top)
next
  show "pickPeriodFromAutocorr ac = findBestPeriodFromAutocorrelation ac"
    by (rule pick_eq_find)
next
  assume a: "sorted_wrt (<) (map lag ac) \<and>
       \<lparr>lag = 40, val = v\<rparr> \<in> set (collectPeaks ac 1) \<and>
       \<lparr>lag = 80, val = v\<rparr> \<in> set (collectPeaks ac 1) \<and>
       (\<forall>p\<in>set (collectPeaks ac 1). val p \<le> v \<and> 40 \<le> lag p)"
  then show "findBestPeriodFromAutocorrelation ac = Some \<lparr>pvalue = 40, score = v\<rparr>"
    using findBest_first_strongest[of ac "\<lparr>lag = 40, val = v\<rparr>"] by simp
qed

lemma collectPeaks_two_peaks:
  "collectPeaks [\<lparr>lag = 39, val = 0\<rparr>, \<lparr>lag = 40, val = 1\<rparr>, \<lparr>lag = 41, val = 0\<rparr>,
      \<lparr>lag = 79, val = 0\<rparr>, \<lparr>lag = 80, val = 1\<rparr>, \<lparr>lag = 81, val = 0\<rparr>] (Suc 0)
   = [\<lparr>lag = 40, val = 1\<rparr>, \<lparr>lag = 80, val = 1\<rparr>]"
  by (simp add: collectPeaks.simps isPeak_def)

theorem findBestPeriodFromAutocorrelation_spec_witness:
  "findBestPeriodFromAutocorrelation
     [\<lparr>lag = 39, val = 0\<rparr>, \<lparr>lag = 40, val = 1\<rparr>, \<lparr>lag = 41, val = 0\<rparr>,
      \<lparr>lag = 79, val = 0\<rparr>, \<lparr>lag = 80, val = 1\<rparr>, \<lparr>lag = 81, val = 0\<rparr>]
   = Some \<lparr>pvalue = 40, score = 1\<rparr>"
  using findBestPeriodFromAutocorrelation_spec
          [THEN conjunct2, THEN conjunct2, THEN conjunct2, THEN conjunct2,
           of "[\<lparr>lag = 39, val = 0\<rparr>, \<lparr>lag = 40, val = 1\<rparr>, \<lparr>lag = 41, val = 0\<rparr>,
                \<lparr>lag = 79, val = 0\<rparr>, \<lparr>lag = 80, val = 1\<rparr>, \<lparr>lag = 81, val = 0\<rparr>]" 1]
  by (simp add: collectPeaks_two_peaks)

text \<open>
  The curve below contains two equal-valued peaks at lags 40 and 80 and no stronger peak,
  yet the picker returns the weaker peak at lag 20: all three peaks are among the five
  strongest, and the smallest lag among those wins.
\<close>

theorem findBestPeriodFromAutocorrelation_weaker_peak_counterexample:
  "collectPeaks
     [\<lparr>lag = 10, val = 0\<rparr>, \<lparr>lag = 20, val = 1/2\<rparr>, \<lparr>lag = 30, val = 0\<rparr>,
      \<lparr>lag = 40, val = 1\<rparr>, \<lparr>lag = 50, val = 0\<rparr>, \<lparr>lag = 80, val = 1\<rparr>,
      \<lparr>lag = 90, val = 0\<rparr>] 1
   = [\<lparr>lag = 20, val = 1/2\<rparr>, \<lparr>lag = 40, val = 1\<rparr>, \<lparr>lag = 80, val = 1\<rparr>]
   \<and> findBestPeriodFromAutocorrelation
     [\<lparr>lag = 10, val = 0\<rparr>, \<lparr>lag = 20, val = 1/2\<rparr>, \<lparr>lag = 30, val = 0\<rparr>,
      \<lparr>lag = 40, val = 1\<rparr>, \<lparr>lag = 50, val = 0\<rparr>, \<lparr>lag = 80, val = 1\<rparr>,
      \<lparr>lag = 90, val = 0\<rparr>]
   = Some \<lparr>pvalue = 20, score = 1/2\<rparr>"
  by (simp add: findBestPeriodFromAutocorrelation_def collectPeaks.simps isPeak_def)

section \<open>Properties of the signal conditioner\<close>

lemma toInt32_id: "- (2 ^ 31) \<le> n \<Longrightarrow> n < 2 ^ 31 \<Longrightarrow> toInt32 n = n"
  unfolding toInt32_def by (simp add: sint_sbintrunc' signed_take_bit_int_eq_self)

lemma highPass1D_eq: "highPass1D signal w = applyHighPassFilter signal w"
  by (simp add: highPass1D_def applyHighPassFilter_def)

lemma foldl_plus_sum_list: "foldl (+) a xs = a + sum_list (xs :: real list)"
  by (induction xs arbitrary: a) (simp_all add: add.assoc)

lemma sum_take_Suc:
  "k < length s \<Longrightarrow> sum_list (take (Suc k) s) = sum_list (take k s) + (s ! k :: real)"
  by (simp add: take_Suc_conv_app_nth)

lemma map_nth_upt_drop_take:
  assumes "b \<le> length s"
  shows "map ((!) s) [a..<b] = drop a (take b s)"
proof (rule nth_equalityI)
  show "length (map ((!) s) [a..<b]) = length (drop a (take b s))"
    using assms by simp
next
  fix j assume "j < length (map ((!) s) [a..<b])"
  then have j: "a + j < b" by simp
  then have "drop a (take b s) ! j = take b s ! (a + j)" using assms by simp
  also have "\<dots> = s ! (a + j)" using j by simp
  finally show "map ((!) s) [a..<b] ! j = drop a (take b s) ! j" using j by simp
qed

lemma centredWindow_conv:
  "centredWindow s h i = drop (i - h) (take (i + h + 1) s)"
proof -
  have "take (min (length s) (i + h + 1)) s = take (i + h + 1) s"
    by (simp add: min_def)
  then show ?thesis
    unfolding centredWindow_def
    using map_nth_upt_drop_take[of "min (length s) (i + h + 1)" s "i - h"] by simp
qed

lemma centredWindow_sum:
  "sum_list (centredWindow s h i)
     = sum_list (take (i + h + 1) s) - sum_list (take (i - h) s)"
proof -
  have "sum_list (take (i + h + 1) s)
      = sum_list (take (i - h) (take (i + h + 1) s) @ drop (i - h) (take (i + h + 1) s))"
    by (simp only: append_take_drop_id)
  also have "\<dots> = sum_list (take (i - h) (take (i + h + 1) s))
                   + sum_list (drop (i - h) (take (i + h + 1) s))"
    by (rule sum_list_append)
  also have "take (i - h) (take (i + h + 1) s) = take (i - h) s"
  proof -
    have "min (i - h) (i + h + 1) = i - h" by simp
    then show ?thesis by (simp only: take_take)
  qed
  finally show ?thesis by (simp add: centredWindow_conv)
qed

lemma centredWindow_length:
  assumes "i < length s"
  shows "int (length (centredWindow s h i))
           = min (int (length s) - 1) (int i + int h) - max 0 (int i - int h) + 1"
  using assms by (auto simp: centredWindow_def min_def max_def)


lemma highPassLoop_excess:
  fixes s :: signal
  assumes "i \<le> length s"
  shows "highPassLoop s h i
           (sum_list (take (i + h) s) - sum_list (take (i - (h + 1)) s) + E)
         = map (\<lambda>j. s ! j - (sum_list (centredWindow s h j) + E)
                              / real (length (centredWindow s h j)))
             [i..<length s]"
  using assms
proof (induction "length s - i" arbitrary: i)
  case 0
  then have "i = length s" by simp
  then show ?case by (subst highPassLoop.simps) simp
next
  case (Suc k)
  then have i: "i < length s" and k: "k = length s - (i + 1)" by auto
  let ?R = "sum_list (take (i + h) s) - sum_list (take (i - (h + 1)) s) + E"
  let ?R1 = "if i + h < length s then ?R + s ! (i + h) else ?R"
  let ?R2 = "if int i - int h - 1 \<ge> 0 then ?R1 - s ! nat (int i - int h - 1) else ?R1"
  have R1: "?R1 = sum_list (take (i + h + 1) s) - sum_list (take (i - (h + 1)) s) + E"
    by (simp add: sum_take_Suc)
  have R2: "?R2 = sum_list (take (i + h + 1) s) - sum_list (take (i - h) s) + E"
  proof (cases "int i - int h - 1 \<ge> 0")
    case True
    then have ge: "h + 1 \<le> i" by simp
    then have idx: "nat (int i - int h - 1) = i - (h + 1)" by simp
    have "i - (h + 1) < length s" using i by simp
    then have "sum_list (take (Suc (i - (h + 1))) s)
                 = sum_list (take (i - (h + 1)) s) + s ! (i - (h + 1))"
      by (rule sum_take_Suc)
    moreover have "Suc (i - (h + 1)) = i - h" using ge by simp
    ultimately show ?thesis using True by (simp only: R1 idx if_True)
  next
    case False
    then have z: "i - h = 0" "i - (h + 1) = 0" by simp_all
    have "?R2 = ?R1" using False by (simp only: if_False)
    also note R1
    finally show ?thesis by (simp only: z)
  qed
  have span: "real_of_int (if min (int (length s) - 1) (int i + int h) - max 0 (int i - int h) + 1 = 0
                 then 1 else min (int (length s) - 1) (int i + int h) - max 0 (int i - int h) + 1)
              = real (length (centredWindow s h i))"
  proof -
    have "0 < length (centredWindow s h i)" using i by (auto simp: centredWindow_def)
    then show ?thesis by (simp only: centredWindow_length[OF i, of h, symmetric]) simp
  qed
  have next_eq: "highPassLoop s h (i + 1) ?R2
           = map (\<lambda>j. s ! j - (sum_list (centredWindow s h j) + E)
                              / real (length (centredWindow s h j)))
               [i + 1..<length s]"
  proof -
    have "?R2 = sum_list (take (i + 1 + h) s) - sum_list (take (i + 1 - (h + 1)) s) + E"
      by (simp only: R2) (simp add: add.commute add.left_commute)
    then show ?thesis using Suc.hyps(1)[of "i + 1"] k i by simp
  qed
  have head: "s ! i - ?R2 / real (length (centredWindow s h i))
          = s ! i - (sum_list (centredWindow s h i) + E) / real (length (centredWindow s h i))"
    by (simp only: R2 centredWindow_sum)
  have "highPassLoop s h i ?R
          = (s ! i - ?R2 / real (length (centredWindow s h i))) # highPassLoop s h (i + 1) ?R2"
    using i by (subst highPassLoop.simps) (simp only: Let_def span if_True simp_thms)
  also have "\<dots> = map (\<lambda>j. s ! j - (sum_list (centredWindow s h j) + E)
                              / real (length (centredWindow s h j)))
                     [i..<length s]"
    using i by (simp only: head next_eq) (simp add: upt_conv_Cons)
  finally show ?case .
qed


lemma applyHighPassFilter_formula:
  "applyHighPassFilter s w =
     (let W = nat (max 3 (toInt32 w)); h = W div 2;
          excess = sum_list (take W s) - sum_list (take h s)
      in map (\<lambda>i. let window = centredWindow s h i;
                      residual = s ! i - (sum_list window + excess) / real (length window)
                  in if residual < 0 then residual * 0.2 else residual)
           [0..<length s])"
proof -
  define W where "W = nat (max 3 (toInt32 w))"
  define h where "h = W div 2"
  define E where "E = sum_list (take W s) - sum_list (take h s)"
  have h: "nat (max 3 (toInt32 w) div 2) = h"
    unfolding h_def W_def by (simp add: nat_div_distrib)
  have "foldl (+) 0 (take (min (length s) W) s) = sum_list (take W s)"
    by (simp add: foldl_plus_sum_list min_def)
  also have "\<dots> = sum_list (take (0 + h) s) - sum_list (take (0 - (h + 1)) s) + E"
    by (simp add: E_def)
  finally have init: "foldl (+) 0 (take (min (length s) W) s)
                = sum_list (take (0 + h) s) - sum_list (take (0 - (h + 1)) s) + E" .
  have "highPassLoop s h 0 (foldl (+) 0 (take (min (length s) W) s))
          = map (\<lambda>j. s ! j - (sum_list (centredWindow s h j) + E)
                              / real (length (centredWindow s h j)))
              [0..<length s]"
    unfolding init by (rule highPassLoop_excess) simp
  then show ?thesis
    unfolding applyHighPassFilter_def Let_def h W_def[symmetric] h_def[symmetric] E_def[symmetric]
    by (simp add: comp_def)
qed

text \<open>
  Claim C1 fails on the code.  The running sum starts as the sum of the first \<open>W\<close>
  samples and the loop then adds \<open>signal[h], signal[h + 1], \<dots>\<close> once more, so every
  local average is the centred window's sum plus the excess
  \<open>signal[h] + \<dots> + signal[W - 1]\<close>, divided by the window's size.  On the example of
  the function's own documentation, \<open>[10, 11, 10, 11, 10]\<close> with window 3, both
  implementations return negative values throughout, where the centred moving average of
  the claim gives residuals around 0.
\<close>

theorem applyHighPassFilter_excess_sum:
  "applyHighPassFilter s w =
     (let W = nat (max 3 (toInt32 w)); h = W div 2;
          excess = sum_list (take W s) - sum_list (take h s)
      in map (\<lambda>i. let window = centredWindow s h i;
                      residual = s ! i - (sum_list window + excess) / real (length window)
                  in if residual < 0 then residual * 0.2 else residual)
           [0..<length s])
   \<and> highPass1D s w = applyHighPassFilter s w
   \<and> applyHighPassFilter [10, 11, 10, 11, 10] 3
     = [- (11/5), - (19/15), - (23/15), - (19/15), - (11/5)]
   \<and> specHighPass [10, 11, 10, 11, 10] 3
     = [- (1/10), 2/3, - (2/15), 2/3, - (1/10)]"
proof (intro conjI)
  show "applyHighPassFilter [10, 11, 10, 11, 10] 3
     = [- (11/5), - (19/15), - (23/15), - (19/15), - (11/5)]"
    by code_simp
  show "specHighPass [10, 11, 10, 11, 10] 3
     = [- (1/10), 2/3, - (2/15), 2/3, - (1/10)]"
    by code_simp
qed (rule applyHighPassFilter_formula highPass1D_eq)+

text \<open>
  Claim C7, as amended.  The pipeline's conditioning applies the high-pass filter with
  window size \<open>max(5, floor(d / 50))\<close>, which is also the effective window inside the
  filter; it equals \<open>max(3, floor(d / 50))\<close> from \<open>d = 250\<close> on.  The drop handler's
  \<open>highPass1D\<close> is called with the same argument and computes the same.
\<close>

theorem processProjection_window:
  "processProjection projection d
     = normalizeSignal (applyHighPassFilter projection (max 5 (int (d div 50))))
   \<and> (d div 50 < 2 ^ 31 \<longrightarrow> max 3 (toInt32 (max 5 (int (d div 50)))) = max 5 (int (d div 50)))
   \<and> (250 \<le> d \<longrightarrow> max 5 (int (d div 50)) = max 3 (int (d div 50)))
   \<and> highPass1D projection (max 5 (int (d div 50)))
     = applyHighPassFilter projection (max 5 (int (d div 50)))"
proof (intro conjI impI)
  show "processProjection projection d
     = normalizeSignal (applyHighPassFilter projection (max 5 (int (d div 50))))"
    by (simp add: processProjection_def)
next
  assume "d div 50 < 2 ^ 31"
  then have "toInt32 (max 5 (int (d div 50))) = max 5 (int (d div 50))"
    by (intro toInt32_id) auto
  then show "max 3 (toInt32 (max 5 (int (d div 50)))) = max 5 (int (d div 50))" by simp
next
  assume "250 \<le> d"
  then have "5 \<le> d div 50" by simp
  then show "max 5 (int (d div 50)) = max 3 (int (d div 50))" by simp
next
  show "highPass1D projection (max 5 (int (d div 50)))
     = applyHighPassFilter projection (max 5 (int (d div 50)))"
    by (rule highPass1D_eq)
qed

theorem processProjection_window_witness:
  "(300::nat) div 50 < 2 ^ 31 \<and> (250::nat) \<le> 300
   \<and> max 3 (toInt32 (max 5 (int (300 div 50)))) = 6 \<and> max 3 (int (300 div 50)) = 6"
  using processProjection_window[of "[]" 300] by simp

text \<open>
  For a projection of dimension 5 the claimed window is \<open>max(3, 0) = 3\<close>, the code's is 5,
  and the conditioned signals differ.
\<close>

theorem processProjection_window_counterexample:
  "processProjection [0, 0, 4, 0, 0] 5 = [0, 1/22, 1, 1/22, 0]
   \<and> normalizeSignal (applyHighPassFilter [0, 0, 4, 0, 0] (max 3 (int (5 div 50))))
       = [1/14, 0, 1, 0, 1/14]"
  by code_simp

section \<open>Lower bound on detected periods\<close>

lemma computeAutocorrelation_lags:
  "map lag (computeAutocorrelation s minLag maxLag) = map real [minLag..<maxLag + 1]"
  unfolding computeAutocorrelation_def Let_def by (simp add: comp_def del: upt_Suc)

lemma computeAutocorrelation_length:
  "length (computeAutocorrelation s minLag maxLag) = maxLag + 1 - minLag"
  using arg_cong[OF computeAutocorrelation_lags[of s minLag maxLag], of length]
  by (simp del: upt_Suc)

lemma computeAutocorrelation_lag:
  assumes "i < maxLag + 1 - minLag"
  shows "lag (computeAutocorrelation s minLag maxLag ! i) = real (minLag + i)"
proof -
  have "lag (computeAutocorrelation s minLag maxLag ! i)
          = map lag (computeAutocorrelation s minLag maxLag) ! i"
    using assms by (simp add: computeAutocorrelation_length del: upt_Suc)
  also have "\<dots> = real (minLag + i)"
    unfolding computeAutocorrelation_lags using assms by (simp del: upt_Suc)
  finally show ?thesis .
qed

lemma peak_lag_above_minLag:
  assumes "e \<in> set (collectPeaks (computeAutocorrelation s minLag maxLag) 1)"
  shows "real minLag < lag e"
proof -
  from assms obtain i where
    i: "1 \<le> i" "i + 1 < maxLag + 1 - minLag" "e = computeAutocorrelation s minLag maxLag ! i"
    unfolding collectPeaks_mem by (auto simp: computeAutocorrelation_length)
  then have "lag e = real (minLag + i)"
    using computeAutocorrelation_lag[of i maxLag minLag s] by simp
  with i(1) show ?thesis by simp
qed

lemma findBest_is_peak:
  assumes "findBestPeriodFromAutocorrelation ac = Some c"
  shows "\<exists>i. 1 \<le> i \<and> i + 1 < length ac \<and> pvalue c = lag (ac ! i) \<and> score c = val (ac ! i)"
proof -
  from findBest_top[OF assms] obtain tops best where
    t: "mset tops \<subseteq># mset (collectPeaks ac 1)" "best \<in> set tops"
       "pvalue c = lag best" "score c = val best"
    by blast
  from t(1,2) have "best \<in> set (collectPeaks ac 1)"
    using set_mset_mono by fastforce
  then obtain i where "1 \<le> i" "i + 1 < length ac" "best = ac ! i"
    unfolding collectPeaks_mem by blast
  then show ?thesis using t(3,4) by auto
qed

lemma findBest_autocorr_lag:
  assumes "findBestPeriodFromAutocorrelation (computeAutocorrelation s minLag maxLag) = Some c"
  shows "pvalue c > real minLag"
proof -
  from findBest_is_peak[OF assms] obtain i where
    i: "1 \<le> i" "i + 1 < maxLag + 1 - minLag"
       "pvalue c = lag (computeAutocorrelation s minLag maxLag ! i)"
    by (auto simp: computeAutocorrelation_length)
  then have "pvalue c = real (minLag + i)"
    using computeAutocorrelation_lag[of i maxLag minLag s] by simp
  with i(1) show ?thesis by simp
qed

lemma combine_lower_bound:
  assumes "combinePeriodCandidates px py = Some p"
    and "\<And>c. px = Some c \<Longrightarrow> b \<le> pvalue c"
    and "\<And>c. py = Some c \<Longrightarrow> b \<le> pvalue c"
  shows "b \<le> p"
  using assms by (cases px; cases py) (auto simp: combinePeriodCandidates_def split: if_splits)

lemma findBest_pipeline_lag:
  assumes "findBestPeriodFromAutocorrelation
             (computeAutocorrelation s (max 8 (d div 200)) maxLag) = Some c"
  shows "9 \<le> pvalue c"
proof -
  from findBest_is_peak[OF assms] obtain i where
    i: "1 \<le> i" "i + 1 < maxLag + 1 - max 8 (d div 200)"
       "pvalue c = lag (computeAutocorrelation s (max 8 (d div 200)) maxLag ! i)"
    by (auto simp: computeAutocorrelation_length)
  then have "pvalue c = real (max 8 (d div 200) + i)"
    using computeAutocorrelation_lag[of i maxLag "max 8 (d div 200)" s] by simp
  moreover have "9 \<le> max 8 (d div 200) + i" using i(1) by simp
  ultimately show ?thesis by simp
qed

text \<open>
  Claim C9.  Every peak of an axis's autocorrelation curve, and so the candidate picked
  from it, has a lag strictly above \<open>minLag = max(8, floor(dimension / 200))\<close>, hence at
  least 9; a non-null result of \<open>detectPeriodFromProjections\<close> is at least 9, so it is
  non-zero and passes the \<open>MIN_VALID_PERIOD\<close> test.
\<close>

theorem detected_period_at_least_9:
  "(\<forall>e\<in>set (collectPeaks
               (computeAutocorrelation s (max 8 (d div 200)) (min (d div 2) 1024)) 1).
      lag e > real (max 8 (d div 200)))
   \<and> (\<forall>c. findBestPeriodFromAutocorrelation
          (computeAutocorrelation s (max 8 (d div 200)) (min (d div 2) 1024)) = Some c
        \<longrightarrow> pvalue c > real (max 8 (d div 200)) \<and> pvalue c \<ge> 9)
   \<and> (\<forall>p. detectPeriodFromProjections signalX signalY width height = Some p
        \<longrightarrow> p \<ge> 9 \<and> p \<noteq> 0 \<and> p \<ge> MIN_VALID_PERIOD)"
proof (intro conjI allI impI ballI)
  fix e
  assume "e \<in> set (collectPeaks
               (computeAutocorrelation s (max 8 (d div 200)) (min (d div 2) 1024)) 1)"
  then show "lag e > real (max 8 (d div 200))" by (rule peak_lag_above_minLag)
next
  fix c
  assume fb: "findBestPeriodFromAutocorrelation
          (computeAutocorrelation s (max 8 (d div 200)) (min (d div 2) 1024)) = Some c"
  then have gt: "pvalue c > real (max 8 (d div 200))" by (rule findBest_autocorr_lag)
  then show "pvalue c > real (max 8 (d div 200))" .
  show "pvalue c \<ge> 9" using fb by (rule findBest_pipeline_lag)
next
  fix p
  assume dp: "detectPeriodFromProjections signalX signalY width height = Some p"
  have "9 \<le> p"
  proof (rule combine_lower_bound)
    show "combinePeriodCandidates
            (findBestPeriodFromAutocorrelation
               (computeAutocorrelation signalX (max 8 (width div 200)) (min (width div 2) 1024)))
            (findBestPeriodFromAutocorrelation
               (computeAutocorrelation signalY (max 8 (height div 200)) (min (height div 2) 1024)))
          = Some p"
      using dp by (simp add: detectPeriodFromProjections_def Let_def)
  next
    fix c
    assume "findBestPeriodFromAutocorrelation
               (computeAutocorrelation signalX (max 8 (width div 200)) (min (width div 2) 1024))
            = Some c"
    then show "9 \<le> pvalue c" by (rule findBest_pipeline_lag)
  next
    fix c
    assume "findBestPeriodFromAutocorrelation
               (computeAutocorrelation signalY (max 8 (height div 200)) (min (height div 2) 1024))
            = Some c"
    then show "9 \<le> pvalue c" by (rule findBest_pipeline_lag)
  qed
  then show "p \<ge> 9" "p \<noteq> 0" "p \<ge> MIN_VALID_PERIOD"
    by (simp_all add: MIN_VALID_PERIOD_def)
qed


theorem detected_period_at_least_9_witness:
  "detectPeriodFromProjections
     [1, 0, 0, 0, 0, 0, 0, 0, 0, 1, 0, 0, 0, 0, 0, 0, 0, 0, 1, 0] [] 20 0 = Some 9
   \<and> (9 :: real) \<ge> MIN_VALID_PERIOD"
proof -
  have "detectPeriodFromProjections
     [1, 0, 0, 0, 0, 0, 0, 0, 0, 1, 0, 0, 0, 0, 0, 0, 0, 0, 1, 0] [] 20 0 = Some 9"
    by code_simp
  then show ?thesis
    using detected_period_at_least_9
            [of "[]" 0 "[1, 0, 0, 0, 0, 0, 0, 0, 0, 1, 0, 0, 0, 0, 0, 0, 0, 0, 1, 0]" "[]" 20 0]
    by simp
qed

section \<open>Properties of the rounding\<close>

lemma pow2_powr: "pow2 k = 2 powr real_of_int k"
proof (cases "0 \<le> k")
  case True
  then have "2 powr real_of_int k = 2 powr real (nat k)" by simp
  also have "\<dots> = 2 ^ nat k" by (simp add: powr_realpow)
  finally show ?thesis using True by (simp add: pow2_def)
next
  case False
  then have "2 powr real_of_int k = 2 powr (- real (nat (- k)))" by simp
  also have "\<dots> = 1 / 2 ^ nat (- k)" by (simp add: powr_minus powr_realpow divide_inverse)
  finally show ?thesis using False by (simp add: pow2_def)
qed

lemma pow2_pos: "0 < pow2 k"
  by (simp add: pow2_powr)

lemma pow2_add: "pow2 (a + b) = pow2 a * pow2 b"
  by (simp add: pow2_powr powr_add)

lemma pow2_nat: "pow2 (int n) = 2 ^ n"
  by (simp add: pow2_def)

lemma binaryExponent_le:
  assumes "0 < x"
  shows "pow2 (binaryExponent x) \<le> x"
proof (cases "1 \<le> x")
  case True
  then have pos: "0 < \<lfloor>x\<rfloor>" by simp
  then have "1 \<le> bitlen \<lfloor>x\<rfloor>" by (simp add: bitlen_alt_def)
  then have "pow2 (bitlen \<lfloor>x\<rfloor> - 1) = 2 ^ nat (bitlen \<lfloor>x\<rfloor> - 1)" by (simp add: pow2_def)
  also have "\<dots> \<le> real_of_int \<lfloor>x\<rfloor>"
    using bitlen_bounds[OF pos] by (metis of_int_le_iff of_int_numeral of_int_power)
  also have "\<dots> \<le> x" by simp
  finally show ?thesis using True by (simp add: binaryExponent_def)
next
  case False
  then have x1: "x < 1" by simp
  then have "1 < 1 / x" using assms by simp
  then have "2 \<le> \<lceil>1 / x\<rceil>" by linarith
  then have n: "0 < \<lceil>1 / x\<rceil> - 1" by simp
  then have k: "1 \<le> bitlen (\<lceil>1 / x\<rceil> - 1)" by (simp add: bitlen_alt_def)
  have "\<lceil>1 / x\<rceil> - 1 < 2 ^ nat (bitlen (\<lceil>1 / x\<rceil> - 1))"
    using bitlen_bounds[OF n] by simp
  then have "\<lceil>1 / x\<rceil> \<le> 2 ^ nat (bitlen (\<lceil>1 / x\<rceil> - 1))" by simp
  then have "real_of_int \<lceil>1 / x\<rceil> \<le> 2 ^ nat (bitlen (\<lceil>1 / x\<rceil> - 1))"
    by (metis of_int_le_iff of_int_numeral of_int_power)
  then have "1 / x \<le> 2 ^ nat (bitlen (\<lceil>1 / x\<rceil> - 1))"
    using le_of_int_ceiling[of "1 / x"] by linarith
  then have "1 / 2 ^ nat (bitlen (\<lceil>1 / x\<rceil> - 1)) \<le> x"
    using assms by (simp add: field_simps)
  moreover have "pow2 (- bitlen (\<lceil>1 / x\<rceil> - 1)) = 1 / 2 ^ nat (bitlen (\<lceil>1 / x\<rceil> - 1))"
    using k by (simp add: pow2_def)
  ultimately show ?thesis using False by (simp add: binaryExponent_def)
qed

lemma roundHalfEven_ge_floor: "\<lfloor>t\<rfloor> \<le> roundHalfEven t"
  by (simp add: roundHalfEven_def Let_def)

lemma roundHalfEven_of_int: "roundHalfEven (of_int n) = n"
  by (simp add: roundHalfEven_def Let_def)

lemma roundToPrecision_zero: "roundToPrecision p 0 = 0"
  by (simp add: roundToPrecision_def)

lemma roundToPrecision_pos:
  assumes "0 < x" "1 \<le> p"
  shows "0 < roundToPrecision p x"
proof -
  define e where "e = binaryExponent \<bar>x\<bar>"
  define ulp where "ulp = pow2 (e - int p + 1)"
  have ulp: "0 < ulp" by (simp add: ulp_def pow2_pos)
  have "pow2 e \<le> x" using binaryExponent_le[of "\<bar>x\<bar>"] assms(1) by (simp add: e_def)
  moreover have "pow2 e = ulp * 2 ^ (p - 1)"
  proof -
    have "e = (e - int p + 1) + int (p - 1)" using assms(2) by simp
    then have "pow2 e = pow2 (e - int p + 1) * pow2 (int (p - 1))"
      by (metis pow2_add)
    then show ?thesis by (simp add: ulp_def pow2_nat)
  qed
  ultimately have "2 ^ (p - 1) \<le> x / ulp" using ulp by (simp add: field_simps)
  moreover have "(1::real) \<le> 2 ^ (p - 1)" by simp
  ultimately have "1 \<le> x / ulp" by linarith
  then have "1 \<le> \<lfloor>x / ulp\<rfloor>" by simp
  then have "1 \<le> roundHalfEven (x / ulp)"
    using roundHalfEven_ge_floor[of "x / ulp"] by linarith
  then have "0 < real_of_int (roundHalfEven (x / ulp)) * ulp" using ulp by simp
  then show ?thesis using assms(1) by (simp add: roundToPrecision_def Let_def ulp_def e_def)
qed

lemma fl64_zero: "fl64 0 = 0"
  by (simp add: fl64_def roundToPrecision_zero)

lemma fl32_zero: "fl32 0 = 0"
  by (simp add: fl32_def roundToPrecision_zero)

lemma fl64_pos: "0 < x \<Longrightarrow> 0 < fl64 x"
  by (simp add: fl64_def roundToPrecision_pos)

lemma fl64_one: "fl64 1 = 1"
  by (simp add: fl64_def roundToPrecision_def binaryExponent_def pow2_def roundHalfEven_def
      compute_bitlen Let_def)

lemma float32_is_double:
  assumes "fl32 v = v"
  shows "fl64 v = v"
proof (cases "v = 0")
  case True
  then show ?thesis by (simp add: fl64_zero)
next
  case False
  define e where "e = binaryExponent \<bar>v\<bar>"
  define m where "m = roundHalfEven (v / pow2 (e - 23))"
  have v: "v = real_of_int m * pow2 (e - 23)"
    using assms False by (simp add: fl32_def roundToPrecision_def Let_def e_def m_def)
  have "e - 23 = (e - 52) + 29" by simp
  then have u: "pow2 (e - 23) = pow2 (e - 52) * 2 ^ 29"
    using pow2_add[of "e - 52" 29] pow2_nat[of 29] by simp
  have "v / pow2 (e - 52) = real_of_int (m * 2 ^ 29)"
    using pow2_pos[of "e - 52"] by (subst v) (simp add: u)
  then have "roundHalfEven (v / pow2 (e - 52)) = m * 2 ^ 29"
    by (simp only: roundHalfEven_of_int)
  then have "fl64 v = real_of_int (m * 2 ^ 29) * pow2 (e - 52)"
    using False by (simp add: fl64_def roundToPrecision_def Let_def e_def)
  also have "\<dots> = real_of_int m * pow2 (e - 23)" by (simp add: u)
  also have "\<dots> = v" by (rule v[symmetric])
  finally show ?thesis .
qed

section \<open>Properties of the offset estimator\<close>

lemma scoreGreater_less: "scoreGreater a b \<longleftrightarrow> b < a"
  by (cases a; cases b) (simp_all add: scoreGreater_def)

lemma samples_finite: "0 < p \<Longrightarrow> finite {k. i + k * p < (n::nat)}"
proof (rule finite_subset)
  assume "0 < p"
  then have "\<And>k. k \<le> k * p" by (cases p) auto
  then have "\<And>k. i + k * p < n \<Longrightarrow> k < n"
    by (meson le_less_trans trans_le_add2)
  then show "{k. i + k * p < n} \<subseteq> {..<n}" by auto
qed simp

lemma samples_rec:
  assumes "0 < p" "i < (n::nat)"
  shows "{k. i + k * p < n} = insert 0 (Suc ` {k. i + p + k * p < n})"
proof (rule set_eqI)
  fix k
  show "k \<in> {k. i + k * p < n} \<longleftrightarrow> k \<in> insert 0 (Suc ` {k. i + p + k * p < n})"
    using assms by (cases k) (auto simp: add.assoc image_iff)
qed

lemma samples_empty: "\<not> i < (n::nat) \<Longrightarrow> {k. i + k * p < n} = {}"
  by auto

lemma foldl_upt_Suc_shift:
  "foldl f a [0..<Suc n] = foldl (\<lambda>acc k. f acc (Suc k)) (f a 0) [0..<n]"
proof -
  have "[0..<Suc n] = 0 # map Suc [0..<n]"
    by (simp add: upt_conv_Cons map_Suc_upt del: upt_Suc)
  then show ?thesis by (simp add: foldl_map del: upt_Suc)
qed

lemma sampleLoop_eq:
  assumes "0 < p"
  shows "sampleLoop s nz p i acc =
           (foldl (\<lambda>a k. fl64 (a + fl64 (s ! (i + k * p) * nz))) (fst acc)
              [0..<card {k. i + k * p < length s}],
            snd acc + card {k. i + k * p < length s})"
  using assms
proof (induction s nz p i acc rule: sampleLoop.induct)
  case (1 s nz p i sm c)
  show ?case
  proof (cases "i < length s")
    case True
    let ?K = "{k. i + p + k * p < length s}"
    have fin: "finite ?K" using samples_finite[OF \<open>0 < p\<close>, of "i + p" "length s"] .
    have rec: "{k. i + k * p < length s} = insert 0 (Suc ` ?K)"
      using samples_rec[OF \<open>0 < p\<close> True] .
    have notin: "0 \<notin> Suc ` ?K" by auto
    have card_eq: "card {k. i + k * p < length s} = Suc (card ?K)"
      unfolding rec using fin notin by (simp add: card_image)
    have shift: "\<And>a k. fl64 (a + fl64 (s ! (i + Suc k * p) * nz))
                      = fl64 (a + fl64 (s ! (i + p + k * p) * nz))"
      by (simp add: add.assoc)
    have "sampleLoop s nz p i (sm, c) =
            sampleLoop s nz p (i + p) (fl64 (sm + fl64 (s ! i * nz)), c + 1)"
      using True \<open>0 < p\<close> by (subst sampleLoop.simps) simp
    also have "\<dots> = (foldl (\<lambda>a k. fl64 (a + fl64 (s ! (i + p + k * p) * nz)))
                         (fl64 (sm + fl64 (s ! i * nz))) [0..<card ?K],
                      c + 1 + card ?K)"
      using "1.IH" True \<open>0 < p\<close> by simp
    also have "\<dots> = (foldl (\<lambda>a k. fl64 (a + fl64 (s ! (i + k * p) * nz))) sm
                         [0..<Suc (card ?K)],
                      c + Suc (card ?K))"
      by (simp only: foldl_upt_Suc_shift shift) simp
    finally show ?thesis by (simp only: card_eq fst_conv snd_conv)
  next
    case False
    then show ?thesis
      by (subst sampleLoop.simps) (simp add: samples_empty)
  qed
qed

lemma offsetScore_eq:
  assumes "0 < p"
  shows "offsetScore s nz p off =
     (if off < length s then Some (computedMean s nz p off) else None)"
proof (cases "off < length s")
  case True
  then have "0 \<in> {k. off + k * p < length s}" by simp
  then have "{k. off + k * p < length s} \<noteq> {}" by blast
  then have "card {k. off + k * p < length s} \<noteq> 0"
    using samples_finite[OF assms, of off "length s"] card_0_eq by blast
  then show ?thesis
    using True by (simp add: offsetScore_def sampleLoop_eq[OF assms])
next
  case False
  then show ?thesis
    by (simp add: offsetScore_def sampleLoop_eq[OF assms] samples_empty)
qed

lemma offsetLoop_first_argmax:
  "offsetLoop s nz p off (b, bs) = r \<Longrightarrow>
     (r = b \<and> (\<forall>o'. off \<le> o' \<and> o' < p \<longrightarrow> offsetScore s nz p o' \<le> bs))
     \<or> (off \<le> r \<and> r < p \<and> bs < offsetScore s nz p r
        \<and> (\<forall>o'. off \<le> o' \<and> o' < p \<longrightarrow> offsetScore s nz p o' \<le> offsetScore s nz p r)
        \<and> (\<forall>o'. off \<le> o' \<and> o' < r \<longrightarrow> offsetScore s nz p o' < offsetScore s nz p r))"
proof (induction s nz p off "(b, bs)" arbitrary: b bs rule: offsetLoop.induct)
  case (1 s nz p off b bs)
  let ?sc = "offsetScore s nz p"
  show ?case
  proof (cases "off < p")
    case False
    then have "r = b" using "1.prems" by (subst (asm) offsetLoop.simps) simp
    then show ?thesis using False by auto
  next
    case True
    show ?thesis
    proof (cases "bs < ?sc off")
      case gt: True
      then have "offsetLoop s nz p (off + 1) (off, ?sc off) = r"
        using "1.prems" True by (subst (asm) offsetLoop.simps) (simp add: scoreGreater_less)
      moreover have "scoreGreater (?sc off) bs" using gt by (simp add: scoreGreater_less)
      ultimately have "(r = off \<and> (\<forall>o'. off + 1 \<le> o' \<and> o' < p \<longrightarrow> ?sc o' \<le> ?sc off))
        \<or> (off + 1 \<le> r \<and> r < p \<and> ?sc off < ?sc r
           \<and> (\<forall>o'. off + 1 \<le> o' \<and> o' < p \<longrightarrow> ?sc o' \<le> ?sc r)
           \<and> (\<forall>o'. off + 1 \<le> o' \<and> o' < r \<longrightarrow> ?sc o' < ?sc r))"
        using "1.hyps"(1)[OF True refl] by blast
      then show ?thesis
      proof
        assume a: "r = off \<and> (\<forall>o'. off + 1 \<le> o' \<and> o' < p \<longrightarrow> ?sc o' \<le> ?sc off)"
        have "\<forall>o'. off \<le> o' \<and> o' < p \<longrightarrow> ?sc o' \<le> ?sc off"
        proof (intro allI impI)
          fix o' assume "off \<le> o' \<and> o' < p"
          then show "?sc o' \<le> ?sc off" using a by (cases "o' = off") auto
        qed
        then show ?thesis using a gt True by auto
      next
        assume a: "off + 1 \<le> r \<and> r < p \<and> ?sc off < ?sc r
           \<and> (\<forall>o'. off + 1 \<le> o' \<and> o' < p \<longrightarrow> ?sc o' \<le> ?sc r)
           \<and> (\<forall>o'. off + 1 \<le> o' \<and> o' < r \<longrightarrow> ?sc o' < ?sc r)"
        have le: "\<forall>o'. off \<le> o' \<and> o' < p \<longrightarrow> ?sc o' \<le> ?sc r"
        proof (intro allI impI)
          fix o' assume "off \<le> o' \<and> o' < p"
          then show "?sc o' \<le> ?sc r" using a by (cases "o' = off") auto
        qed
        have lt: "\<forall>o'. off \<le> o' \<and> o' < r \<longrightarrow> ?sc o' < ?sc r"
        proof (intro allI impI)
          fix o' assume "off \<le> o' \<and> o' < r"
          then show "?sc o' < ?sc r" using a by (cases "o' = off") auto
        qed
        have "bs < ?sc r" using gt a by (meson less_trans)
        then show ?thesis using a le lt by auto
      qed
    next
      case ngt: False
      then have "offsetLoop s nz p (off + 1) (b, bs) = r"
        using "1.prems" True by (subst (asm) offsetLoop.simps) (simp add: scoreGreater_less)
      moreover have "\<not> scoreGreater (?sc off) bs" using ngt by (simp add: scoreGreater_less)
      ultimately have "(r = b \<and> (\<forall>o'. off + 1 \<le> o' \<and> o' < p \<longrightarrow> ?sc o' \<le> bs))
        \<or> (off + 1 \<le> r \<and> r < p \<and> bs < ?sc r
           \<and> (\<forall>o'. off + 1 \<le> o' \<and> o' < p \<longrightarrow> ?sc o' \<le> ?sc r)
           \<and> (\<forall>o'. off + 1 \<le> o' \<and> o' < r \<longrightarrow> ?sc o' < ?sc r))"
        using "1.hyps"(2)[OF True refl] by blast
      then show ?thesis
      proof
        assume a: "r = b \<and> (\<forall>o'. off + 1 \<le> o' \<and> o' < p \<longrightarrow> ?sc o' \<le> bs)"
        have "\<forall>o'. off \<le> o' \<and> o' < p \<longrightarrow> ?sc o' \<le> bs"
        proof (intro allI impI)
          fix o' assume "off \<le> o' \<and> o' < p"
          then show "?sc o' \<le> bs" using a ngt by (cases "o' = off") auto
        qed
        then show ?thesis using a by auto
      next
        assume a: "off + 1 \<le> r \<and> r < p \<and> bs < ?sc r
           \<and> (\<forall>o'. off + 1 \<le> o' \<and> o' < p \<longrightarrow> ?sc o' \<le> ?sc r)
           \<and> (\<forall>o'. off + 1 \<le> o' \<and> o' < r \<longrightarrow> ?sc o' < ?sc r)"
        have off_lt: "?sc off < ?sc r" using a ngt by (meson not_le_imp_less le_less_trans not_less)
        have le: "\<forall>o'. off \<le> o' \<and> o' < p \<longrightarrow> ?sc o' \<le> ?sc r"
        proof (intro allI impI)
          fix o' assume "off \<le> o' \<and> o' < p"
          then show "?sc o' \<le> ?sc r" using a off_lt by (cases "o' = off") auto
        qed
        have lt: "\<forall>o'. off \<le> o' \<and> o' < r \<longrightarrow> ?sc o' < ?sc r"
        proof (intro allI impI)
          fix o' assume "off \<le> o' \<and> o' < r"
          then show "?sc o' < ?sc r" using a off_lt by (cases "o' = off") auto
        qed
        show ?thesis using a le lt by auto
      qed
    qed
  qed
qed


lemma maxLoop_Some: "maxLoop vs (Some m) = Some (fold max vs m)"
proof (induction vs arbitrary: m)
  case Nil
  show ?case by simp
next
  case (Cons v vs)
  show ?case using Cons.IH[of v] Cons.IH[of m] by (simp add: max_def)
qed

lemma maxLoop_None: "maxLoop s None = (if s = [] then None else Some (Max (set s)))"
proof (cases s)
  case Nil
  then show ?thesis by simp
next
  case (Cons v vs)
  then show ?thesis using Max.set_eq_fold[of v vs] by (simp add: maxLoop_Some)
qed

lemma estimateGridOffset_argmax:
  fixes s :: signal
  assumes per: "2 \<le> period"
  defines "r \<equiv> estimateGridOffset s period"
  shows "r < nat period"
    and "s \<noteq> [] \<Longrightarrow> r < length s"
    and "off < nat period \<Longrightarrow> off < length s \<Longrightarrow>
           computedMean s (maxNormalizer s) (nat period) off
             \<le> computedMean s (maxNormalizer s) (nat period) r"
    and "off < r \<Longrightarrow>
           computedMean s (maxNormalizer s) (nat period) off
             < computedMean s (maxNormalizer s) (nat period) r"
proof -
  let ?p = "nat period"
  let ?nz = "maxNormalizer s"
  have p: "0 < ?p" using per by simp
  have r: "offsetLoop s ?nz ?p 0 (0, None) = r"
    using per unfolding r_def estimateGridOffset_def
    by (auto simp: maxLoop_None Let_def)
  note sc = offsetScore_eq[OF p, of s ?nz]
  from offsetLoop_first_argmax[OF r]
  consider (A) "r = 0" "\<forall>o'. o' < ?p \<longrightarrow> offsetScore s ?nz ?p o' \<le> None"
    | (B) "r < ?p" "None < offsetScore s ?nz ?p r"
          "\<forall>o'. o' < ?p \<longrightarrow> offsetScore s ?nz ?p o' \<le> offsetScore s ?nz ?p r"
          "\<forall>o'. o' < r \<longrightarrow> offsetScore s ?nz ?p o' < offsetScore s ?nz ?p r"
    by auto
  then have "r < ?p \<and> (s \<noteq> [] \<longrightarrow> r < length s)
     \<and> (off < ?p \<longrightarrow> off < length s \<longrightarrow> computedMean s ?nz ?p off \<le> computedMean s ?nz ?p r)
     \<and> (off < r \<longrightarrow> computedMean s ?nz ?p off < computedMean s ?nz ?p r)"
  proof cases
    case A
    from A(2) p have "offsetScore s ?nz ?p 0 \<le> None" by blast
    then have "s = []" unfolding sc by (simp split: if_splits)
    then show ?thesis using A(1) p by simp
  next
    case B
    from B(2) have rl: "r < length s" unfolding sc by (simp split: if_splits)
    have le: "off < ?p \<longrightarrow> off < length s \<longrightarrow>
                computedMean s ?nz ?p off \<le> computedMean s ?nz ?p r"
    proof (intro impI)
      assume "off < ?p" "off < length s"
      then show "computedMean s ?nz ?p off \<le> computedMean s ?nz ?p r"
        using B(3)[rule_format, of off] rl unfolding sc by simp
    qed
    have lt: "off < r \<longrightarrow> computedMean s ?nz ?p off < computedMean s ?nz ?p r"
    proof (intro impI)
      assume "off < r"
      then show "computedMean s ?nz ?p off < computedMean s ?nz ?p r"
        using B(4)[rule_format, of off] rl unfolding sc by simp
    qed
    show ?thesis using B(1) rl le lt by blast
  qed
  then show "r < nat period"
    and "s \<noteq> [] \<Longrightarrow> r < length s"
    and "off < nat period \<Longrightarrow> off < length s \<Longrightarrow>
           computedMean s ?nz (nat period) off \<le> computedMean s ?nz (nat period) r"
    and "off < r \<Longrightarrow> computedMean s ?nz (nat period) off < computedMean s ?nz (nat period) r"
    by blast+
qed




lemma samples_initial:
  assumes "0 < p" "k < card {k. off + k * p < (n::nat)}"
  shows "off + k * p < n"
proof (rule ccontr)
  assume "\<not> off + k * p < n"
  then have ge: "n \<le> off + k * p" by simp
  have "{j. off + j * p < n} \<subseteq> {..<k}"
  proof
    fix j assume "j \<in> {j. off + j * p < n}"
    then have "off + j * p < n" by simp
    then have "j * p < k * p" using ge by linarith
    then have "j < k" by (metis mult_less_cancel2)
    then show "j \<in> {..<k}" by simp
  qed
  then have "card {j. off + j * p < n} \<le> card {..<k}"
    by (intro card_mono) auto
  then show False using assms(2) by simp
qed

lemma foldl_fl64_zero:
  assumes "\<And>k. k \<in> set ks \<Longrightarrow> g k = 0"
  shows "foldl (\<lambda>a k. fl64 (a + g k)) 0 ks = 0"
  using assms by (induction ks) (simp_all add: fl64_zero)

lemma foldl_fl64_pos:
  assumes "\<And>k. k \<in> set ks \<Longrightarrow> 0 < g k" "0 \<le> a" "ks \<noteq> []"
  shows "0 < foldl (\<lambda>a k. fl64 (a + g k)) a ks"
  using assms
proof (induction ks arbitrary: a)
  case Nil
  then show ?case by simp
next
  case (Cons k ks)
  have pos: "0 < fl64 (a + g k)" using Cons.prems(1)[of k] Cons.prems(2) by (intro fl64_pos) simp
  show ?case
  proof (cases "ks = []")
    case True
    then show ?thesis using pos by simp
  next
    case False
    have "0 < foldl (\<lambda>a k. fl64 (a + g k)) (fl64 (a + g k)) ks"
      using Cons.prems(1) pos False by (intro Cons.IH) auto
    then show ?thesis by simp
  qed
qed

lemma estimateGridOffset_spikes:
  fixes h :: real
  assumes h: "0 < h" and n: "4 \<le> n"
  shows "estimateGridOffset (map (\<lambda>i. if i mod 10 = 3 then h else 0) [0..<n]) 10 = 3"
proof -
  define s where "s = map (\<lambda>i. if i mod 10 = 3 then h else (0::real)) [0..<n]"
  define r where "r = estimateGridOffset s 10"
  define nz where "nz = fl64 (1 / h)"
  have len: "length s = n" by (simp add: s_def)
  have nth: "\<And>i. i < n \<Longrightarrow> s ! i = (if i mod 10 = 3 then h else 0)"
    by (simp add: s_def)
  have ne: "s \<noteq> []" using n len by auto
  have "s ! 3 = h" using nth[of 3] n by simp
  moreover have "3 < length s" using n len by simp
  ultimately have "h \<in> set s" using nth_mem[of 3 s] by simp
  moreover have "\<And>v. v \<in> set s \<Longrightarrow> v \<le> h" using h by (auto simp: s_def)
  ultimately have "Max (set s) = h" by (intro Max_eqI) auto
  then have nzeq: "maxNormalizer s = nz" using ne h by (simp add: nz_def)
  have nzpos: "0 < nz" unfolding nz_def using h by (intro fl64_pos) simp
  have cardpos: "0 < card {k. off + k * 10 < length s}" if "off < n" for off
  proof -
    have "0 \<in> {k. off + k * 10 < length s}" using that len by simp
    then have "{k. off + k * 10 < length s} \<noteq> {}" by blast
    moreover have "finite {k. off + k * 10 < length s}" by (rule samples_finite) simp
    ultimately show ?thesis using card_gt_0_iff by blast
  qed
  have tm: "fl64 (s ! (off + k * 10) * nz) = (if off = 3 then fl64 (h * nz) else 0)"
    if "off < 10" "k < card {k. off + k * 10 < length s}" for off k
  proof -
    have "off + k * 10 < n" using samples_initial[of 10 k off "length s"] that(2) len by simp
    moreover have "(off + k * 10) mod 10 = off" using that(1) by simp
    ultimately show ?thesis using nth[of "off + k * 10"] by (simp add: fl64_zero)
  qed
  have mean3: "0 < computedMean s nz 10 3"
  proof -
    have c: "0 < card {k. 3 + k * 10 < length s}" using cardpos[of 3] n by simp
    have "0 < fl64 (h * nz)" using h nzpos by (intro fl64_pos) simp
    then have "0 < foldl (\<lambda>a k. fl64 (a + fl64 (s ! (3 + k * 10) * nz))) 0
                     [0..<card {k. 3 + k * 10 < length s}]"
      using c tm[of 3] by (intro foldl_fl64_pos) auto
    then show ?thesis using c by (intro fl64_pos) simp
  qed
  have mean0: "computedMean s nz 10 off = 0" if "off < 10" "off < n" "off \<noteq> 3" for off
  proof -
    have "foldl (\<lambda>a k. fl64 (a + fl64 (s ! (off + k * 10) * nz))) 0
            [0..<card {k. off + k * 10 < length s}] = 0"
      using tm[of off] that by (intro foldl_fl64_zero) auto
    then show ?thesis by (simp add: fl64_zero)
  qed
  have r10: "r < 10" and rn: "r < n"
    using estimateGridOffset_argmax(1,2)[of 10 s] ne len by (simp_all add: r_def)
  have "3 < n" using n by simp
  then have "computedMean s nz 10 3 \<le> computedMean s nz 10 r"
    using estimateGridOffset_argmax(3)[of 10 3 s] len nzeq by (simp add: r_def)
  then have "r = 3"
    using mean3 mean0[of r] r10 rn by (cases "r = 3") auto
  then show ?thesis by (simp add: r_def s_def)
qed

lemma estimateGridOffset_small_period: "period < 2 \<Longrightarrow> estimateGridOffset s period = 0"
  by (simp add: estimateGridOffset_def)

text \<open>
  Claim C6, as amended.  For an integer period of at least 2 the result is an offset below
  the period, and below the signal's length unless the signal is empty; among the offsets
  that have a sample it maximises the mean of the max-normalised samples at
  \<open>offset, offset + period, \<dots>\<close> as the code computes it in doubles, and every smaller
  offset has a strictly smaller computed mean.  For a period below 2 (0 included) the
  result is 0.  For spikes of height \<open>h > 0\<close> at the positions \<open>3, 13, 23, \<dots>\<close> of an
  otherwise zero signal of length at least 4 and period 10, the result is 3.
\<close>

theorem estimateGridOffset_spec:
  "(2 \<le> period \<longrightarrow>
      estimateGridOffset s period < nat period
      \<and> (s \<noteq> [] \<longrightarrow> estimateGridOffset s period < length s)
      \<and> (\<forall>off. off < nat period \<and> off < length s \<longrightarrow>
            computedMean s (maxNormalizer s) (nat period) off
              \<le> computedMean s (maxNormalizer s) (nat period) (estimateGridOffset s period))
      \<and> (\<forall>off. off < estimateGridOffset s period \<longrightarrow>
            computedMean s (maxNormalizer s) (nat period) off
              < computedMean s (maxNormalizer s) (nat period) (estimateGridOffset s period)))
   \<and> (period < 2 \<longrightarrow> estimateGridOffset s period = 0)
   \<and> (0 < h \<and> 4 \<le> n \<longrightarrow>
        estimateGridOffset (map (\<lambda>i. if i mod 10 = 3 then h else 0) [0..<n]) 10 = 3)"
proof (intro conjI impI allI)
  assume "2 \<le> period"
  then show "estimateGridOffset s period < nat period"
    by (rule estimateGridOffset_argmax(1))
next
  assume "2 \<le> period" "s \<noteq> []"
  then show "estimateGridOffset s period < length s"
    by (rule estimateGridOffset_argmax(2))
next
  fix off
  assume "2 \<le> period" "off < nat period \<and> off < length s"
  then show "computedMean s (maxNormalizer s) (nat period) off
              \<le> computedMean s (maxNormalizer s) (nat period) (estimateGridOffset s period)"
    using estimateGridOffset_argmax(3)[of period off s] by blast
next
  fix off
  assume "2 \<le> period" "off < estimateGridOffset s period"
  then show "computedMean s (maxNormalizer s) (nat period) off
              < computedMean s (maxNormalizer s) (nat period) (estimateGridOffset s period)"
    by (rule estimateGridOffset_argmax(4))
next
  assume "period < 2"
  then show "estimateGridOffset s period = 0" by (rule estimateGridOffset_small_period)
next
  assume "0 < h \<and> 4 \<le> n"
  then show "estimateGridOffset (map (\<lambda>i. if i mod 10 = 3 then h else 0) [0..<n]) 10 = 3"
    using estimateGridOffset_spikes[of h n] by blast
qed

theorem estimateGridOffset_spec_witness:
  "estimateGridOffset [0, 1, 0, 1] 2 < 2
   \<and> estimateGridOffset [0, 1, 0, 1] 1 = 0
   \<and> estimateGridOffset (map (\<lambda>i. if i mod 10 = 3 then 1 else 0) [0..<25]) 10 = 3"
  using estimateGridOffset_spec[of 2 "[0, 1, 0, 1]" 1 25]
        estimateGridOffset_spec[of 1 "[0, 1, 0, 1]" 1 25]
  by simp

text \<open>
  In exact arithmetic the max-normalised means of \<open>[5, 7, 2, 0]\<close> for period 2 are equal,
  \<open>(5/7 + 2/7) / 2 = (7/7 + 0/7) / 2\<close>, so the smallest maximising offset is 0; in
  doubles the first is \<open>0.49999999999999994\<close> and the second \<open>0.5\<close>, and the result is 1.
  For \<open>[2^60, 2^60, 0, 1]\<close> the exact mean of offset 1 is the larger one; in doubles both
  are \<open>0.5\<close>, and the result is 0.
\<close>

theorem estimateGridOffset_rounding_counterexample:
  "estimateGridOffset [5, 7, 2, 0] 2 = 1
   \<and> (5 * (1 / 7) + 2 * (1 / 7)) / 2 = (7 * (1 / 7) + 0 * (1 / 7)) / (2 :: real)
   \<and> estimateGridOffset [2 ^ 60, 2 ^ 60, 0, 1] 2 = 0
   \<and> (2 ^ 60 * (1 / 2 ^ 60) + 0 * (1 / 2 ^ 60)) / 2
       < (2 ^ 60 * (1 / 2 ^ 60) + 1 * (1 / 2 ^ 60)) / (2 :: real)"
proof (intro conjI)
  show "estimateGridOffset [5, 7, 2, 0] 2 = 1" by code_simp
  show "estimateGridOffset [2 ^ 60, 2 ^ 60, 0, 1] 2 = 0" by code_simp
qed simp_all

section \<open>Images without edges\<close>

lemma clampValue_range:
  "lo \<le> hi \<Longrightarrow> lo \<le> clampValue v lo hi \<and> clampValue v lo hi \<le> hi"
  by (simp add: clampValue_def)

lemma clamped_index:
  assumes "x < width" "y < height"
  shows "nat (clampValue (int y + ky) 0 (int height - 1) * int width
              + clampValue (int x + kx) 0 (int width - 1)) < width * height"
proof -
  define cy where "cy = clampValue (int y + ky) 0 (int height - 1)"
  define cx where "cx = clampValue (int x + kx) 0 (int width - 1)"
  have cy: "0 \<le> cy" "cy \<le> int height - 1"
    using clampValue_range[of 0 "int height - 1" "int y + ky"] assms by (simp_all add: cy_def)
  have cx: "0 \<le> cx" "cx \<le> int width - 1"
    using clampValue_range[of 0 "int width - 1" "int x + kx"] assms by (simp_all add: cx_def)
  have "cy * int width \<le> (int height - 1) * int width"
    using cy by (intro mult_right_mono) auto
  then have "cy * int width + cx < int height * int width"
    using cx by (simp add: algebra_simps)
  moreover have "0 \<le> cy * int width + cx" using cy cx by simp
  ultimately have "nat (cy * int width + cx) < height * width"
    by (metis nat_less_iff of_nat_mult)
  then show ?thesis by (simp add: cy_def cx_def mult.commute)
qed

lemma sobelAt_flat:
  assumes "x < width" "y < height"
  shows "sobelAt (replicate (width * height) g) width height x y = 0"
proof -
  have s: "\<And>ky kx. replicate (width * height) g
             ! nat (clampValue (int y + ky) 0 (int height - 1) * int width
                    + clampValue (int x + kx) 0 (int width - 1)) = g"
    using clamped_index[OF assms] by simp
  show ?thesis
    unfolding sobelAt_def Let_def sobelX_def sobelY_def by (simp add: s)
qed

lemma concat_replicate_replicate:
  "concat (replicate h (replicate w a)) = replicate (w * h) a"
  by (induction h) (simp_all add: replicate_add[symmetric])

lemma concat_map_zero:
  assumes "\<And>x y. x < w \<Longrightarrow> y < h \<Longrightarrow> f x y = (0::real)"
  shows "concat (map (\<lambda>y. map (\<lambda>x. f x y) [0..<w]) [0..<h]) = replicate (w * h) 0"
proof -
  have "map (\<lambda>y. map (\<lambda>x. f x y) [0..<w]) [0..<h] = map (\<lambda>y. replicate w 0) [0..<h]"
    using assms by (intro map_cong refl) (simp add: map_replicate_trivial[symmetric] del: map_replicate_trivial)
  also have "\<dots> = replicate h (replicate w 0)"
    by (simp add: map_replicate_trivial)
  finally show ?thesis
    by (simp add: concat_replicate_replicate)
qed


lemma computeSobelMagnitude_flat:
  "computeSobelMagnitude (replicate (width * height) g) width height
     = replicate (width * height) 0"
  unfolding computeSobelMagnitude_def by (rule concat_map_zero) (rule sobelAt_flat)

lemma foldl_add_zero:
  assumes "\<And>y. y \<in> set ys \<Longrightarrow> f y = (0::real)"
  shows "foldl (\<lambda>acc y. acc + f y) a ys = a"
  using assms by (induction ys arbitrary: a) simp_all

lemma computeEdgeProjections_zero:
  "computeEdgeProjections (replicate (width * height) 0) width height
     = (replicate width 0, replicate height 0)"
proof -
  have idx: "\<And>x y. x < width \<Longrightarrow> y < height \<Longrightarrow> y * width + x < width * height"
  proof -
    fix x y assume "x < width" "y < height"
    then have "y * width + x < y * width + width" by simp
    also have "\<dots> = (y + 1) * width" by simp
    also have "\<dots> \<le> height * width" using \<open>y < height\<close> by (intro mult_le_mono1) simp
    finally show "y * width + x < width * height" by (simp add: mult.commute)
  qed
  have px: "map (\<lambda>x. foldl (\<lambda>acc y. acc + replicate (width * height) (0::real) ! (y * width + x)) 0
                    [0..<height]) [0..<width] = map (\<lambda>x. 0) [0..<width]"
    by (intro map_cong refl foldl_add_zero) (simp add: idx)
  have py: "map (\<lambda>y. foldl (\<lambda>rowSum x. rowSum + replicate (width * height) (0::real) ! (y * width + x)) 0
                    [0..<width]) [0..<height] = map (\<lambda>y. 0) [0..<height]"
    by (intro map_cong refl foldl_add_zero) (simp add: idx)
  show ?thesis
    unfolding computeEdgeProjections_def px py by (simp add: map_replicate_trivial)
qed

lemma highPassLoop_zero:
  "highPassLoop (replicate n 0) halfWindow i 0 = replicate (n - i) 0"
proof (induction "n - i" arbitrary: i)
  case 0
  then show ?case by (subst highPassLoop.simps) simp
next
  case (Suc k)
  then have i: "i < n" and k: "k = n - (i + 1)" by auto
  have "highPassLoop (replicate n 0) halfWindow (i + 1) 0 = replicate (n - (i + 1)) 0"
    using Suc.hyps(1)[of "i + 1"] k by simp
  moreover have "n - i = Suc (n - (i + 1))" using i by simp
  ultimately show ?case
    using i by (subst highPassLoop.simps) (simp add: Let_def)
qed

lemma foldl_plus_zero: "foldl (+) (0::real) (replicate k 0) = 0"
  by (induction k) simp_all

lemma applyHighPassFilter_zero:
  "applyHighPassFilter (replicate n 0) windowSize = replicate n 0"
  unfolding applyHighPassFilter_def Let_def
  by (simp add: take_replicate foldl_plus_zero highPassLoop_zero)

lemma maxLoop_zero: "maxLoop (replicate n 0) (Some 0) = Some 0"
  by (induction n) simp_all

lemma minLoop_zero: "minLoop (replicate n 0) (Some 0) = Some 0"
  by (induction n) simp_all

lemma normalizeSignal_zero: "normalizeSignal (replicate n 0) = replicate n 0"
  by (cases n) (simp_all add: normalizeSignal_def maxLoop_zero minLoop_zero)

lemma processProjection_zero: "processProjection (replicate n 0) d = replicate n 0"
  by (simp add: processProjection_def applyHighPassFilter_zero normalizeSignal_zero)


lemma foldl_dev_zero: "foldl (\<lambda>d v. d + (v - 0) * (v - 0)) (0::real) (replicate n 0) = 0"
  by (induction n) simp_all

lemma computeAutocorrelation_zero:
  "e \<in> set (computeAutocorrelation (replicate n 0) minLag maxLag) \<Longrightarrow> val e = 0"
proof -
  assume e: "e \<in> set (computeAutocorrelation (replicate n 0) minLag maxLag)"
  have num: "\<And>l. foldl (\<lambda>acc i. acc + replicate n (0::real) ! i * replicate n 0 ! (i + l))
                  0 [0..<n - l] = 0"
    by (rule foldl_add_zero) auto
  from e obtain l where "val e = foldl (\<lambda>acc i. acc + replicate n (0::real) ! i * replicate n 0 ! (i + l))
                  0 [0..<n - l] / (if foldl (\<lambda>d v. d + v * v) (0::real) (replicate n 0) = 0 then 1
                     else foldl (\<lambda>d v. d + v * v) (0::real) (replicate n 0))"
    unfolding computeAutocorrelation_def Let_def
    by (auto simp: foldl_plus_zero simp del: upt_Suc)
  then show ?thesis by (simp add: num)
qed

lemma collectPeaks_constant:
  assumes "\<And>e. e \<in> set ac \<Longrightarrow> val e = c"
  shows "collectPeaks ac 1 = []"
proof -
  have "\<And>i. i \<in> set [1..<length ac - 1] \<Longrightarrow> \<not> isPeak ac i"
  proof -
    fix i assume "i \<in> set [1..<length ac - 1]"
    then have "i < length ac" "i - 1 < length ac" by auto
    then have "val (ac ! i) = c" "val (ac ! (i - 1)) = c"
      using assms nth_mem by blast+
    then show "\<not> isPeak ac i" by (simp add: isPeak_def)
  qed
  then have "filter (isPeak ac) [1..<length ac - 1] = []"
    by (simp only: filter_empty_conv) blast
  then show ?thesis by (simp only: collectPeaks_filter) simp
qed

lemma findBest_zero_signal:
  "findBestPeriodFromAutocorrelation (computeAutocorrelation (replicate n 0) minLag maxLag) = None"
  unfolding findBest_None
  by (rule collectPeaks_constant[where c = 0]) (rule computeAutocorrelation_zero)

lemma detectPeriod_zero:
  "detectPeriodFromProjections (replicate w 0) (replicate h 0) w h = None"
  by (simp add: detectPeriodFromProjections_def Let_def findBest_zero_signal
      combinePeriodCandidates_def)

lemma extractGrayscaleData_flat:
  assumes "\<forall>p < width * height. rgbaPixels ! (4 * p) = r \<and> rgbaPixels ! (4 * p + 1) = g
             \<and> rgbaPixels ! (4 * p + 2) = b"
  shows "extractGrayscaleData rgbaPixels width height
           = replicate (width * height) (0.299 * real r + 0.587 * real g + 0.114 * real b)"
proof -
  have "map (\<lambda>pixelIndex. luminance rgbaPixels (4 * pixelIndex)) [0..<width * height]
          = map (\<lambda>pixelIndex. 0.299 * real r + 0.587 * real g + 0.114 * real b) [0..<width * height]"
    using assms by (intro map_cong refl) (simp add: luminance_def)
  then show ?thesis
    by (simp add: extractGrayscaleData_def map_replicate_trivial)
qed

lemma flat_pipeline:
  assumes "\<forall>p < width * height. rgbaPixels ! (4 * p) = r \<and> rgbaPixels ! (4 * p + 1) = g
             \<and> rgbaPixels ! (4 * p + 2) = b"
  shows "computeEdgeProjections
           (computeSobelMagnitude (extractGrayscaleData rgbaPixels width height) width height)
           width height
         = (replicate width 0, replicate height 0)"
  by (simp add: extractGrayscaleData_flat[OF assms] computeSobelMagnitude_flat
      computeEdgeProjections_zero)

section \<open>The drop handler's copy and the service\<close>

lemma sobelMagnitude_eq: "sobelMagnitude g w h = computeSobelMagnitude g w h"
  by (simp add: sobelMagnitude_def computeSobelMagnitude_def)

lemma dh_grayscale_eq:
  assumes "length pixelData = 4 * width * height"
  shows "dh_grayscale pixelData width height = extractGrayscaleData pixelData width height"
  unfolding dh_grayscale_def extractGrayscaleData_def
  using assms by (intro map_cong refl) simp

lemma dh_normalize_eq: "dh_normalize s = normalizeSignal s"
  by (simp add: dh_normalize_def normalizeSignal_def)

lemma autocorr1D_eq: "autocorr1D s a b = computeAutocorrelation s a b"
  by (simp add: autocorr1D_def computeAutocorrelation_def Let_def)

text \<open>
  On an array of doubles the drop handler's sums are those of the service with
  normalizer 1.
\<close>

lemma dh_sampleLoop_eq:
  assumes "\<forall>v\<in>set s. fl64 v = v"
  shows "dh_sampleLoop s p i acc = sampleLoop s 1 p i acc"
  using assms
proof (induction s "1::real" p i acc rule: sampleLoop.induct)
  case (1 s p i sm c)
  show ?case
  proof (cases "i < length s \<and> 0 < p")
    case True
    then have "fl64 (s ! i) = s ! i" using "1.prems" by simp
    then show ?thesis
      using "1.hyps" "1.prems" True
      by (subst dh_sampleLoop.simps, subst sampleLoop.simps) simp
  next
    case False
    then show ?thesis
      by (subst dh_sampleLoop.simps, subst sampleLoop.simps) auto
  qed
qed

lemma dh_shiftLoop_eq:
  assumes "\<forall>v\<in>set s. fl64 v = v"
  shows "dh_shiftLoop s p shift best = offsetLoop s 1 p shift best"
  using assms
proof (induction s "1::real" p shift best rule: offsetLoop.induct)
  case (1 s p shift b bs)
  show ?case
  proof (cases "shift < p")
    case True
    then show ?thesis
      using "1.hyps" "1.prems"
      by (subst dh_shiftLoop.simps, subst offsetLoop.simps)
         (simp add: dh_sampleLoop_eq offsetScore_def Let_def)
  next
    case False
    then show ?thesis
      by (subst dh_shiftLoop.simps, subst offsetLoop.simps) simp
  qed
qed

lemma offsetLoop_Nil: "offsetLoop [] nz p off (b, bs) = b"
proof (induction "[] :: real list" nz p off "(b, bs)" rule: offsetLoop.induct)
  case (1 nz p off)
  have sc: "offsetScore [] nz p off = None"
    by (simp add: offsetScore_def sampleLoop.simps)
  show ?case
  proof (cases "off < p")
    case True
    then show ?thesis
      using "1.hyps"(2) by (subst offsetLoop.simps) (simp add: sc scoreGreater_def)
  next
    case False
    then show ?thesis by (subst offsetLoop.simps) simp
  qed
qed

text \<open>
  The two offset estimators agree on a \<open>Float32Array\<close> whose maximum is exactly 1 or 0,
  as a normalised signal is: the factor is then 1, and multiplying by 1 and storing as a
  float32 changes no entry.
\<close>

lemma estimateOffsetFromProjection_eq:
  assumes f32: "isFloat32Array s"
    and mx: "s = [] \<or> Max (set s) = 1 \<or> Max (set s) = 0"
  shows "estimateOffsetFromProjection s period = estimateGridOffset s period"
proof (cases "s = []")
  case True
  then show ?thesis
    by (simp add: estimateOffsetFromProjection_def estimateGridOffset_def Let_def
        offsetLoop_Nil dh_shiftLoop_eq)
next
  case False
  have d: "\<forall>v\<in>set s. fl64 v = v"
    using f32 by (auto simp: isFloat32Array_def intro: float32_is_double)
  have one: "(if Max (set s) \<noteq> 0 then fl64 (1 / Max (set s)) else 1) = 1"
    using mx False by (auto simp: fl64_one)
  have "map (\<lambda>v. fl32 (fl64 (v * 1))) s = s"
    using f32 d by (intro map_idI) (simp add: isFloat32Array_def)
  then show ?thesis
    using False d
    by (simp add: estimateOffsetFromProjection_def estimateGridOffset_def Let_def
        maxLoop_None one dh_shiftLoop_eq)
qed

lemma minLoop_Some: "minLoop vs (Some m) = Some (fold min vs m)"
proof (induction vs arbitrary: m)
  case Nil
  show ?case by simp
next
  case (Cons v vs)
  show ?case using Cons.IH[of v] Cons.IH[of m] by (simp add: min_def)
qed

lemma minLoop_None: "minLoop s None = (if s = [] then None else Some (Min (set s)))"
proof (cases s)
  case Nil
  then show ?thesis by simp
next
  case (Cons v vs)
  then show ?thesis using Min.set_eq_fold[of v vs] by (simp add: minLoop_Some)
qed

lemma normalizeSignal_Nil_iff: "normalizeSignal s = [] \<longleftrightarrow> s = []"
  by (cases "s = []") (simp_all add: normalizeSignal_def maxLoop_None minLoop_None Let_def)

text \<open>The maximum of a normalised signal is exactly 1, or 0 for a constant signal.\<close>

lemma normalizeSignal_max:
  assumes "s \<noteq> []"
  shows "Max (set (normalizeSignal s)) = 1 \<or> Max (set (normalizeSignal s)) = 0"
proof -
  define mx where "mx = Max (set s)"
  define mn where "mn = Min (set s)"
  define range where "range = (if mx - mn = 0 then 1 else mx - mn)"
  have ns: "normalizeSignal s = map (\<lambda>v. (v - mn) / range) s"
    using assms by (simp add: normalizeSignal_def maxLoop_None minLoop_None Let_def
        mx_def mn_def range_def)
  have le: "mn \<le> mx" using assms by (simp add: mx_def mn_def Min_le_iff Max_ge_iff)
  then have rpos: "0 < range" by (auto simp: range_def)
  have "mono (\<lambda>v. (v - mn) / range)"
    using rpos by (auto simp: mono_def divide_right_mono)
  then have "(mx - mn) / range = Max ((\<lambda>v. (v - mn) / range) ` set s)"
    unfolding mx_def using assms by (intro mono_Max_commute) auto
  then have "Max (set (normalizeSignal s)) = (mx - mn) / range" by (simp add: ns)
  then show ?thesis by (auto simp: range_def)
qed

lemma processProjection_max:
  "processProjection projection d = []
   \<or> Max (set (processProjection projection d)) = 1
   \<or> Max (set (processProjection projection d)) = 0"
  unfolding processProjection_def Let_def
  using normalizeSignal_max normalizeSignal_Nil_iff by blast

lemma dh_detect_eq:
  fixes imageWidth imageHeight :: nat and pixelData :: "nat list"
  defines "width \<equiv> scaledDimension imageWidth (scaleFactorOf imageWidth imageHeight)"
  defines "height \<equiv> scaledDimension imageHeight (scaleFactorOf imageWidth imageHeight)"
  defines "projections \<equiv> computeEdgeProjections
             (computeSobelMagnitude (extractGrayscaleData pixelData width height) width height)
             width height"
  assumes len: "length pixelData = 4 * width * height"
    and fX32: "isFloat32Array (processProjection (fst projections) width)"
    and fY32: "isFloat32Array (processProjection (snd projections) height)"
  shows "dh_detectGridFromImage imageWidth imageHeight pixelData manualPoints
           = detectGridFromImage imageWidth imageHeight pixelData manualPoints"
proof -
  define sf where "sf = scaleFactorOf imageWidth imageHeight"
  have w_def: "width = scaledDimension imageWidth sf"
    and h_def: "height = scaledDimension imageHeight sf"
    by (simp_all add: width_def height_def sf_def)
  have sf: "(if max imageWidth imageHeight = 0 then 1
             else min 1 (fl64 (real (1600::nat) / real (max imageWidth imageHeight)))) = sf"
    by (simp add: sf_def scaleFactorOf_def MAX_PROCESSING_DIMENSION_def)
  have w: "nat (max 1 (mathRound (fl64 (real imageWidth * sf)))) = width"
    and h: "nat (max 1 (mathRound (fl64 (real imageHeight * sf)))) = height"
    by (simp_all add: w_def h_def scaledDimension_def)
  have gray: "dh_grayscale pixelData width height = extractGrayscaleData pixelData width height"
    using len by (rule dh_grayscale_eq)
  obtain pX pY where proj: "projections = (pX, pY)" by (cases projections)
  then have pX: "map (\<lambda>x. foldl (\<lambda>acc y. acc
                   + computeSobelMagnitude (extractGrayscaleData pixelData width height)
                       width height ! (y * width + x))
                   0 [0..<height]) [0..<width] = pX"
    and pY: "map (\<lambda>y. foldl (\<lambda>rowSum x. rowSum
                   + computeSobelMagnitude (extractGrayscaleData pixelData width height)
                       width height ! (y * width + x))
                   0 [0..<width]) [0..<height] = pY"
    by (simp_all add: projections_def computeEdgeProjections_def)
  define fX where "fX = processProjection pX width"
  define fY where "fY = processProjection pY height"
  have fX: "dh_normalize (highPass1D pX (max 5 (int (width div 50)))) = fX"
    and fY: "dh_normalize (highPass1D pY (max 5 (int (height div 50)))) = fY"
    by (simp_all add: fX_def fY_def processProjection_def dh_normalize_eq highPass1D_eq)
  have offX: "\<And>p. estimateOffsetFromProjection fX p = estimateGridOffset fX p"
    using fX32 processProjection_max[of pX width]
    unfolding fX_def proj by (intro estimateOffsetFromProjection_eq) auto
  have offY: "\<And>p. estimateOffsetFromProjection fY p = estimateGridOffset fY p"
    using fY32 processProjection_max[of pY height]
    unfolding fY_def proj by (intro estimateOffsetFromProjection_eq) auto
  define dp where "dp = detectPeriodFromProjections fX fY width height"
  have dp: "dh_period
              (pickPeriodFromAutocorr
                 (autocorr1D fX (max 8 (width div 200)) (min (width div 2) 1024)))
              (pickPeriodFromAutocorr
                 (autocorr1D fY (max 8 (height div 200)) (min (height div 2) 1024)))
            = dp"
    by (simp add: dp_def detectPeriodFromProjections_def Let_def dh_period_eq_combine
        pick_eq_find autocorr1D_eq)
  have lhs: "dh_detectGridFromImage imageWidth imageHeight pixelData manualPoints =
      (if dp \<noteq> None \<and> the dp \<noteq> 0 \<and> the dp \<ge> 6
       then Inr (buildDetectionResult (the dp) fX fY sf)
       else if manualPoints \<noteq> None \<and> length (the manualPoints) \<ge> 2
       then Inr (detectFromManualPoints (the manualPoints))
       else Inl InsufficientPeriodicSignal)"
    unfolding dh_detectGridFromImage_def Let_def sf w h gray sobelMagnitude_eq pX pY fX fY dp
    by (simp add: buildDetectionResult_def detectFromManualPoints_def Let_def offX offY)
  have rhs: "detectGridFromImage imageWidth imageHeight pixelData manualPoints =
      (if dp \<noteq> None \<and> the dp \<noteq> 0 \<and> the dp \<ge> 6
       then Inr (buildDetectionResult (the dp) fX fY sf)
       else if manualPoints \<noteq> None \<and> length (the manualPoints) \<ge> 2
       then Inr (detectFromManualPoints (the manualPoints))
       else Inl InsufficientPeriodicSignal)"
    unfolding detectGridFromImage_def Let_def sf_def[symmetric] w_def[symmetric] h_def[symmetric]
      projections_def[symmetric] proj prod.case
    by (simp add: fX_def fY_def dp_def MIN_VALID_PERIOD_def)
  show ?thesis unfolding lhs rhs ..
qed

section \<open>Paths of the orchestrator\<close>


lemma detect_flat:
  assumes "\<forall>p < scaledDimension imageWidth (scaleFactorOf imageWidth imageHeight)
                   * scaledDimension imageHeight (scaleFactorOf imageWidth imageHeight).
             rgbaPixels ! (4 * p) = r \<and> rgbaPixels ! (4 * p + 1) = g
             \<and> rgbaPixels ! (4 * p + 2) = b"
  shows "detectGridFromImage imageWidth imageHeight rgbaPixels manualPoints
           = (if manualPoints \<noteq> None \<and> length (the manualPoints) \<ge> 2
              then Inr (detectFromManualPoints (the manualPoints))
              else Inl InsufficientPeriodicSignal)"
  unfolding detectGridFromImage_def Let_def flat_pipeline[OF assms]
  by (simp add: processProjection_zero detectPeriod_zero)











section \<open>A run of the whole pipeline\<close>


lemma fl64_small: "fl64 80 = 80" "fl64 20 = 20" "fl64 800 = 800" "fl64 2 = 2"
  by code_simp+














text \<open>
  A canvas of 3712 by 145 pixels is scaled to a height of 62: the product of 145 and the
  double nearest to 1600/3712 rounds below 62.5, which the exact product is.
\<close>

lemma wide_rounding:
  "mathRound (fl64 (145 * fl64 (25 / 58))) = 62" "mathRound (145 * (25 / 58)) = 63"
  "fl64 (25 / 58) < 1"
  by code_simp+

lemma scaledDimension_wide: "scaledDimension 145 (scaleFactorOf 3712 145) = 62"
  using wide_rounding(3)
  by (simp add: scaledDimension_def scaleFactorOf_def MAX_PROCESSING_DIMENSION_def
      wide_rounding(1) min_def)

section \<open>Agreement and results\<close>

lemma isFloat32Array_zero: "isFloat32Array (replicate n 0)"
  by (simp add: isFloat32Array_def fl32_zero)

text \<open>
  Outside the conditioned projections the two offset estimators are different functions:
  the drop handler rounds each normalised value to a float32 before it sums.
\<close>

lemma estimators_differ:
  "estimateOffsetFromProjection [9, 10, 1, 0] 2 = 1" "estimateGridOffset [9, 10, 1, 0] 2 = 0"
  "estimateOffsetFromProjection [5, 7, 2, 0] 2 = 0" "estimateGridOffset [5, 7, 2, 0] 2 = 1"
  by code_simp+



lemma scaledDimension_two: "scaledDimension 2 (scaleFactorOf 2 2) = 2"
  by (simp add: scaledDimension_def scaleFactorOf_def mathRound_def MAX_PROCESSING_DIMENSION_def
      fl64_small)




lemma four_pixels_flat:
  "\<forall>p < scaledDimension 2 (scaleFactorOf 2 2) * scaledDimension 2 (scaleFactorOf 2 2).
      [7, 7, 7, 255, 7, 7, 7, 255, 7, 7, 7, 255, 7, 7, 7, 255] ! (4 * p) = (7::nat)
    \<and> [7, 7, 7, 255, 7, 7, 7, 255, 7, 7, 7, 255, 7, 7, 7, 255] ! (4 * p + 1) = (7::nat)
    \<and> [7, 7, 7, 255, 7, 7, 7, 255, 7, 7, 7, 255, 7, 7, 7, 255] ! (4 * p + 2) = (7::nat)"
proof (intro allI impI)
  fix p :: nat
  assume "p < scaledDimension 2 (scaleFactorOf 2 2) * scaledDimension 2 (scaleFactorOf 2 2)"
  then have "p < 4" by (simp add: scaledDimension_two)
  then consider "p = 0" | "p = 1" | "p = 2" | "p = 3" by linarith
  then show "[7, 7, 7, 255, 7, 7, 7, 255, 7, 7, 7, 255, 7, 7, 7, 255] ! (4 * p) = (7::nat)
    \<and> [7, 7, 7, 255, 7, 7, 7, 255, 7, 7, 7, 255, 7, 7, 7, 255] ! (4 * p + 1) = (7::nat)
    \<and> [7, 7, 7, 255, 7, 7, 7, 255, 7, 7, 7, 255, 7, 7, 7, 255] ! (4 * p + 2) = (7::nat)"
    by cases simp_all
qed



lemma four_pixels_wellformed:
  "length [7, 7, 7, 255, 7, 7, 7, 255, 7, 7, 7, 255, 7, 7, 7, 255 :: nat]
     = 4 * scaledDimension 2 (scaleFactorOf 2 2) * scaledDimension 2 (scaleFactorOf 2 2)"
  by (simp add: scaledDimension_two)



text \<open>
  Claim C8.  For a canvas whose pixels all have the same colour, the conditioned
  projections are zero throughout, every autocorrelation value is 0, no axis has a peak,
  the combined period is null, and without at least two manual points both
  implementations fail with the insufficient-periodic-signal error.
\<close>

theorem flat_image_insufficient_signal:
  fixes imageWidth imageHeight :: nat and rgbaPixels :: "nat list"
  defines "width \<equiv> scaledDimension imageWidth (scaleFactorOf imageWidth imageHeight)"
  defines "height \<equiv> scaledDimension imageHeight (scaleFactorOf imageWidth imageHeight)"
  defines "projections \<equiv> computeEdgeProjections
             (computeSobelMagnitude (extractGrayscaleData rgbaPixels width height) width height)
             width height"
  defines "filteredX \<equiv> processProjection (fst projections) width"
  defines "filteredY \<equiv> processProjection (snd projections) height"
  defines "autocorrX \<equiv> computeAutocorrelation filteredX (max 8 (width div 200))
                           (min (width div 2) 1024)"
  defines "autocorrY \<equiv> computeAutocorrelation filteredY (max 8 (height div 200))
                           (min (height div 2) 1024)"
  assumes wf: "length rgbaPixels = 4 * width * height"
    and flat: "\<forall>p < width * height. rgbaPixels ! (4 * p) = r \<and> rgbaPixels ! (4 * p + 1) = g
                 \<and> rgbaPixels ! (4 * p + 2) = b"
    and nomp: "manualPoints = None \<or> length (the manualPoints) < 2"
  shows "filteredX = replicate width 0 \<and> filteredY = replicate height 0
     \<and> (\<forall>e\<in>set autocorrX. val e = 0) \<and> (\<forall>e\<in>set autocorrY. val e = 0)
     \<and> collectPeaks autocorrX 1 = [] \<and> collectPeaks autocorrY 1 = []
     \<and> findBestPeriodFromAutocorrelation autocorrX = None
     \<and> findBestPeriodFromAutocorrelation autocorrY = None
     \<and> detectPeriodFromProjections filteredX filteredY width height = None
     \<and> detectGridFromImage imageWidth imageHeight rgbaPixels manualPoints
         = Inl InsufficientPeriodicSignal
     \<and> dh_detectGridFromImage imageWidth imageHeight rgbaPixels manualPoints
         = Inl InsufficientPeriodicSignal"
proof -
  have proj: "projections = (replicate width 0, replicate height 0)"
    unfolding projections_def by (rule flat_pipeline[OF flat])
  have fX: "filteredX = replicate width 0" and fY: "filteredY = replicate height 0"
    by (simp_all add: filteredX_def filteredY_def proj processProjection_zero)
  have zX: "\<forall>e\<in>set autocorrX. val e = 0" and zY: "\<forall>e\<in>set autocorrY. val e = 0"
    unfolding autocorrX_def autocorrY_def fX fY by (blast dest: computeAutocorrelation_zero)+
  have pX: "collectPeaks autocorrX 1 = []" and pY: "collectPeaks autocorrY 1 = []"
    using zX zY by (blast intro: collectPeaks_constant[where c = 0])+
  have bX: "findBestPeriodFromAutocorrelation autocorrX = None"
    and bY: "findBestPeriodFromAutocorrelation autocorrY = None"
    using pX pY by (simp_all add: findBest_None)
  have dp: "detectPeriodFromProjections filteredX filteredY width height = None"
    unfolding fX fY by (rule detectPeriod_zero)
  have svc: "detectGridFromImage imageWidth imageHeight rgbaPixels manualPoints
               = Inl InsufficientPeriodicSignal"
    using detect_flat[of imageWidth imageHeight rgbaPixels r g b manualPoints] flat nomp
    by (auto simp: width_def height_def)
  have "isFloat32Array filteredX" "isFloat32Array filteredY"
    unfolding fX fY by (rule isFloat32Array_zero)+
  then have "dh_detectGridFromImage imageWidth imageHeight rgbaPixels manualPoints
               = detectGridFromImage imageWidth imageHeight rgbaPixels manualPoints"
    using wf
    unfolding filteredX_def filteredY_def projections_def width_def height_def
    by (intro dh_detect_eq)
  then have dh: "dh_detectGridFromImage imageWidth imageHeight rgbaPixels manualPoints
               = Inl InsufficientPeriodicSignal"
    by (simp add: svc)
  show ?thesis using fX fY zX zY pX pY bX bY dp svc dh by blast
qed

theorem flat_image_insufficient_signal_witness:
  "detectGridFromImage 2 2 [7, 7, 7, 255, 7, 7, 7, 255, 7, 7, 7, 255, 7, 7, 7, 255] None
     = Inl InsufficientPeriodicSignal
   \<and> dh_detectGridFromImage 2 2 [7, 7, 7, 255, 7, 7, 7, 255, 7, 7, 7, 255, 7, 7, 7, 255] None
     = Inl InsufficientPeriodicSignal"
  using flat_image_insufficient_signal[OF four_pixels_wellformed four_pixels_flat, of None]
  by simp

end
